theory Spec2Isabelle
  imports Main "HOL-Library.Word"
begin

chapter \<open>Strigo: version resolution from a registry listing\<close>

text \<open>
  A shallow embedding of three Go components of Strigo:
  \<^item> package \<open>version\<close>, file with \<open>ExtractMajor\<close> and \<open>CompareVersions\<close>;
  \<^item> package \<open>version\<close>, the \<open>Parser\<close> with \<open>ExtractVersion\<close> and
    \<open>ExtractVersionByType\<close>;
  \<^item> package \<open>repository\<close>, \<open>NexusClient.GetAvailableVersions\<close>.

  Go strings are byte sequences, so a Go \<open>string\<close> is a \<^typ>\<open>string\<close> (a list of
  8-bit \<^typ>\<open>char\<close>). Go's \<open>int\<close> is 64 bits wide on the supported platforms
  (amd64 and arm64). An \<open>error\<close> made by \<open>fmt.Errorf\<close> is its message. The calls of
  \<open>logging.LogDebug\<close> do not influence any result and are left out, and with them the
  variables that only feed them (\<open>pageCount\<close>).
\<close>

section \<open>Go standard library: strings and strconv\<close>

text \<open>Byte value of a character; Go compares strings byte by byte.\<close>

definition byte :: "char \<Rightarrow> nat" where
  "byte c = of_char c"

text \<open>The operator \<open><\<close> on Go strings: lexicographic on bytes, a proper prefix is smaller.\<close>

fun str_less :: "string \<Rightarrow> string \<Rightarrow> bool" where
  "str_less [] [] = False"
| "str_less [] (y # ys) = True"
| "str_less (x # xs) [] = False"
| "str_less (x # xs) (y # ys) = (byte x < byte y \<or> (x = y \<and> str_less xs ys))"

text \<open>\<open>strings.HasPrefix\<close>, \<open>strings.HasSuffix\<close>, \<open>strings.TrimPrefix\<close>.\<close>

definition HasPrefix :: "string \<Rightarrow> string \<Rightarrow> bool" where
  "HasPrefix s pre = (length pre \<le> length s \<and> take (length pre) s = pre)"

definition HasSuffix :: "string \<Rightarrow> string \<Rightarrow> bool" where
  "HasSuffix s suf =
     (length suf \<le> length s \<and> drop (length s - length suf) s = suf)"

definition TrimPrefix :: "string \<Rightarrow> string \<Rightarrow> string" where
  "TrimPrefix s pre = (if HasPrefix s pre then drop (length pre) s else s)"

text \<open>\<open>strings.Contains s sub\<close>: \<open>sub\<close> occurs in \<open>s\<close> at some offset.\<close>

fun Contains :: "string \<Rightarrow> string \<Rightarrow> bool" where
  "Contains [] sub = (sub = [])"
| "Contains (c # cs) sub = (HasPrefix (c # cs) sub \<or> Contains cs sub)"

text \<open>
  \<open>strings.TrimLeft s cutset\<close> for an ASCII cutset: drops leading bytes that occur in
  the cutset.
\<close>

definition TrimLeft :: "string \<Rightarrow> string \<Rightarrow> string" where
  "TrimLeft s cutset = dropWhile (\<lambda>c. c \<in> set cutset) s"

text \<open>
  \<open>strings.Replace s old new (-1)\<close> where \<open>old\<close> and \<open>new\<close> are one byte each, as in
  every call of \<open>CompareVersions\<close>.
\<close>

definition Replace :: "string \<Rightarrow> char \<Rightarrow> char \<Rightarrow> string" where
  "Replace s old new = map (\<lambda>c. if c = old then new else c) s"

text \<open>
  \<open>strings.Split s sep\<close> for a one-byte separator: the pieces between the separators;
  a string with \<open>n\<close> separators has \<open>n + 1\<close> pieces, and the empty string has the one
  piece \<open>""\<close>.
\<close>

fun Split :: "string \<Rightarrow> char \<Rightarrow> string list" where
  "Split [] sep = [[]]"
| "Split (c # cs) sep =
     (if c = sep then [] # Split cs sep
      else (case Split cs sep of
              [] \<Rightarrow> [[c]]
            | p # ps \<Rightarrow> (c # p) # ps))"

text \<open>
  \<open>strconv.Atoi\<close>: an optional sign \<open>+\<close> or \<open>-\<close>, then one or more decimal digits and
  nothing else; the value must fit a 64-bit signed \<open>int\<close>, otherwise Atoi reports a
  range error. \<open>None\<close> is \<open>err != nil\<close>.
\<close>

definition is_digit :: "char \<Rightarrow> bool" where
  "is_digit c = (c \<in> set ''0123456789'')"

definition digit_val :: "char \<Rightarrow> int" where
  "digit_val c = int (byte c) - 48"

definition digits_val :: "string \<Rightarrow> int" where
  "digits_val ds = foldl (\<lambda>n c. n * 10 + digit_val c) 0 ds"

definition Atoi :: "string \<Rightarrow> int option" where
  "Atoi s =
     (let neg = (s \<noteq> [] \<and> hd s = CHR ''-'');
          body = (if s \<noteq> [] \<and> (hd s = CHR ''-'' \<or> hd s = CHR ''+'') then tl s else s)
      in if body = [] \<or> \<not> list_all is_digit body then None
         else let n = (if neg then - digits_val body else digits_val body)
              in if n < - (2 ^ 63) \<or> 2 ^ 63 - 1 < n then None else Some n)"

section \<open>Version comparator\<close>

subsection \<open>ExtractMajor\<close>

text \<open>
  \<open>regexp.MustCompile(`^(\d+)SEP.*`).FindStringSubmatch(version)\<close> for the two patterns
  of \<open>ExtractMajor\<close>, where \<open>SEP\<close> is the literal \<open>.\<close> or \<open>u\<close>. The regex is anchored at
  the start, \<open>\d+\<close> takes a non-empty run of ASCII digits, which must be the whole
  leading run because the next byte has to be the separator, and \<open>.*\<close> takes the rest
  of the line. The result is the list of the whole match and the first group, or the
  empty list (Go's \<open>nil\<close>) when there is no match.
\<close>

definition major_submatch :: "char \<Rightarrow> string \<Rightarrow> string list" where
  "major_submatch sep s =
     (let ds = takeWhile is_digit s; rest = dropWhile is_digit s
      in if ds \<noteq> [] \<and> rest \<noteq> [] \<and> hd rest = sep
         then [ds @ sep # takeWhile (\<lambda>c. c \<noteq> CHR 0x0A) (tl rest), ds]
         else [])"

text \<open>The loop \<open>for _, pattern := range patterns\<close> over the separators of the two regexes.\<close>

fun major_patterns :: "char list \<Rightarrow> string \<Rightarrow> string option" where
  "major_patterns [] version = None"
| "major_patterns (sep # seps) version =
     (let matches = major_submatch sep version
      in if length matches > 1 then Some (matches ! 1)
         else major_patterns seps version)"

text \<open>
  \<open>ExtractMajor\<close>. The index \<open>[0]\<close> into \<open>strings.Split(parts[0], "u")\<close> is \<open>hd\<close>:
  \<open>Split\<close> never returns an empty slice (lemma \<open>Split_not_Nil\<close> below).
\<close>

definition ExtractMajor :: "string \<Rightarrow> string" where
  "ExtractMajor version =
     (if version = [] then []
      else case major_patterns [CHR ''.'', CHR ''u''] version of
        Some m \<Rightarrow> m
      | None \<Rightarrow>
          (let cleanVersion =
                 TrimLeft version
                   ''abcdefghijklmnopqrstuvwxyzABCDEFGHIJKLMNOPQRSTUVWXYZ-_''
           in if \<not> Contains cleanVersion ''.'' \<and> \<not> Contains cleanVersion ''u'' then []
              else let parts = Split cleanVersion CHR ''.''
                   in if length parts > 0
                      then (let majorPart = hd (Split (hd parts) CHR ''u'')
                            in if Atoi majorPart \<noteq> None then majorPart else [])
                      else []))"

subsection \<open>CompareVersions\<close>

text \<open>
  The loop \<open>for i := 0; i < minLen; i++\<close> with the final
  \<open>return len(v1Parts) < len(v2Parts)\<close>. Every index read is below \<open>minLen\<close>, hence in
  range of both slices.
\<close>

function compare_from :: "string list \<Rightarrow> string list \<Rightarrow> nat \<Rightarrow> nat \<Rightarrow> bool" where
  "compare_from v1Parts v2Parts minLen i =
     (if i < minLen then
        (case (Atoi (v1Parts ! i), Atoi (v2Parts ! i)) of
           (Some n1, Some n2) \<Rightarrow>
             if n1 < n2 then True
             else if n1 > n2 then False
             else compare_from v1Parts v2Parts minLen (Suc i)
         | _ \<Rightarrow>
             if str_less (v1Parts ! i) (v2Parts ! i) then True
             else if str_less (v2Parts ! i) (v1Parts ! i) then False
             else compare_from v1Parts v2Parts minLen (Suc i))
      else length v1Parts < length v2Parts)"
  by pat_completeness auto
termination
  by (relation "measure (\<lambda>(v1Parts, v2Parts, minLen, i). minLen - i)") auto

definition CompareVersions :: "string \<Rightarrow> string \<Rightarrow> bool" where
  "CompareVersions v1 v2 =
     (let v1Parts = Split (Replace (Replace v1 CHR ''u'' CHR ''.'') CHR ''_'' CHR ''.'') CHR ''.'';
          v2Parts = Split (Replace (Replace v2 CHR ''u'' CHR ''.'') CHR ''_'' CHR ''.'') CHR ''.'';
          minLen = (if length v2Parts < length v1Parts then length v2Parts
                    else length v1Parts)
      in compare_from v1Parts v2Parts minLen 0)"

declare compare_from.simps [simp del]

section \<open>Pattern registry and extractor\<close>

text \<open>
  \<open>regexp.Compile\<close> and \<open>(*Regexp).FindStringSubmatch\<close> belong to Go's standard
  library, so the extractor takes them as a parameter. \<open>Compile\<close> returns \<open>None\<close> for
  \<open>err != nil\<close>. \<open>FindStringSubmatch\<close> returns the whole match followed by the text of
  every capture group, in order, or the empty list (Go's \<open>nil\<close>) when the regex does
  not match.
\<close>

record 're regexp =
  Compile :: "string \<Rightarrow> 're option"
  FindStringSubmatch :: "'re \<Rightarrow> string \<Rightarrow> string list"

record Pattern =
  Name :: string
  Type :: string
  Description :: string
  Patterns :: "string list"

record Parser =
  patterns :: "Pattern list"

text \<open>
  The inner loop \<open>for _, regexStr := range pattern.Patterns\<close>, shared verbatim by
  \<open>ExtractVersion\<close> and \<open>ExtractVersionByType\<close>: \<open>Some (version, pattern.Name)\<close> is the
  \<open>return\<close> inside the loop, \<open>None\<close> is the loop running to its end.
\<close>

fun try_regexes ::
  "'re regexp \<Rightarrow> Pattern \<Rightarrow> string list \<Rightarrow> string \<Rightarrow> (string \<times> string) option" where
  "try_regexes lib pattern [] path = None"
| "try_regexes lib pattern (regexStr # rest) path =
     (case Compile lib regexStr of
        None \<Rightarrow> try_regexes lib pattern rest path
      | Some re \<Rightarrow>
          (let matches = FindStringSubmatch lib re path
           in if length matches > 1 then Some (matches ! 1, Name pattern)
              else try_regexes lib pattern rest path))"

text \<open>The outer loop \<open>for _, pattern := range p.patterns\<close> of \<open>ExtractVersion\<close>.\<close>

fun extract_loop ::
  "'re regexp \<Rightarrow> Pattern list \<Rightarrow> string \<Rightarrow> (string \<times> string) option" where
  "extract_loop lib [] path = None"
| "extract_loop lib (pattern # rest) path =
     (case try_regexes lib pattern (Patterns pattern) path of
        Some r \<Rightarrow> Some r
      | None \<Rightarrow> extract_loop lib rest path)"

text \<open>
  The result is \<open>Inr (version, patternName)\<close> for \<open>err == nil\<close>, and \<open>Inl\<close> of the error
  message otherwise.
\<close>

definition ExtractVersion ::
  "'re regexp \<Rightarrow> Parser \<Rightarrow> string \<Rightarrow> string + string \<times> string" where
  "ExtractVersion lib p path =
     (case extract_loop lib (patterns p) path of
        Some r \<Rightarrow> Inr r
      | None \<Rightarrow> Inl (''no pattern matched for path: '' @ path))"

text \<open>The outer loop of \<open>ExtractVersionByType\<close>, with its type check and \<open>continue\<close>.\<close>

fun extract_loop_by_type ::
  "'re regexp \<Rightarrow> Pattern list \<Rightarrow> string \<Rightarrow> string \<Rightarrow> (string \<times> string) option" where
  "extract_loop_by_type lib [] path sdkType = None"
| "extract_loop_by_type lib (pattern # rest) path sdkType =
     (if Pattern.Type pattern \<noteq> sdkType \<and> Pattern.Type pattern \<noteq> ''*''
      then extract_loop_by_type lib rest path sdkType
      else (case try_regexes lib pattern (Patterns pattern) path of
              Some r \<Rightarrow> Some r
            | None \<Rightarrow> extract_loop_by_type lib rest path sdkType))"

definition ExtractVersionByType ::
  "'re regexp \<Rightarrow> Parser \<Rightarrow> string \<Rightarrow> string \<Rightarrow> string + string \<times> string" where
  "ExtractVersionByType lib p path sdkType =
     (case extract_loop_by_type lib (patterns p) path sdkType of
        Some r \<Rightarrow> Inr r
      | None \<Rightarrow>
          Inl (''no pattern matched for path: '' @ path @ '' (type: '' @ sdkType @ '')''))"

text \<open>\<open>GetPatternsByType\<close>: the patterns of a type, wildcard patterns included, in table order.\<close>

definition GetPatternsByType :: "Parser \<Rightarrow> string \<Rightarrow> Pattern list" where
  "GetPatternsByType p sdkType =
     filter (\<lambda>pattern. Pattern.Type pattern = sdkType \<or> Pattern.Type pattern = ''*'') (patterns p)"

section \<open>Registry listing resolver\<close>

subsection \<open>Data\<close>

record SDKAsset =
  Version :: string
  DownloadUrl :: string
  Filename :: string
  Size :: "64 word"

record NexusAsset =
  Path :: string
  DownloadUrl :: string
  Checksum :: "(string \<times> string) list"

record Registry =
  Type :: string
  APIURL :: string
  Username :: string
  Password :: string

record SDKRepository =
  Type :: string
  Registry :: string
  Repository :: string
  Path :: string

record NexusClient =
  parser :: Parser

subsection \<open>More of the standard library\<close>

text \<open>
  \<open>strings.ReplaceAll s old new\<close> for a non-empty \<open>old\<close>: non-overlapping occurrences
  are replaced from the left. The resolver calls it with \<open>old = "{repository}"\<close> only;
  for the empty \<open>old\<close>, which it never passes, the model leaves \<open>s\<close> as it is.
\<close>

function ReplaceAll :: "string \<Rightarrow> string \<Rightarrow> string \<Rightarrow> string" where
  "ReplaceAll s old new =
     (if old = [] \<or> s = [] then s
      else if HasPrefix s old then new @ ReplaceAll (drop (length old) s) old new
      else hd s # ReplaceAll (tl s) old new)"
  by pat_completeness auto
termination
  by (relation "measure (\<lambda>(s, old, new). length s)") auto

declare ReplaceAll.simps [simp del]

text \<open>\<open>%d\<close> of a non-negative integer: its decimal digits.\<close>

function Itoa :: "nat \<Rightarrow> string" where
  "Itoa n =
     (if n < 10 then [char_of (48 + n)]
      else Itoa (n div 10) @ [char_of (48 + n mod 10)])"
  by pat_completeness auto
termination
  by (relation "measure id") auto

declare Itoa.simps [simp del]

subsection \<open>Pagination\<close>

text \<open>
  The network is not part of the program. One round of the pagination loop has one of
  these outcomes: \<open>http.NewRequest\<close> fails, \<open>client.Do\<close> fails, or a response arrives
  with a status code and a body whose JSON decoding either fails or yields the items
  and the continuation token (\<open>""\<close> when the field is absent). The environment is the
  sequence of the outcomes of the successive rounds.
\<close>

datatype http_result =
    RequestError string
  | TransportError string
  | HttpResponse nat "string + NexusAsset list \<times> string"

record request =
  url :: string
  basic_auth :: "(string \<times> string) option"

text \<open>
  What a run of the loop leaves behind: the value it returned, if it returned, the
  requests it sent, in order, and the outcomes it did not consume.
\<close>

record 'a run =
  returned :: "'a option"
  sent :: "request list"
  unread :: "http_result list"

definition build_request :: "(string \<Rightarrow> string) \<Rightarrow> Registry \<Rightarrow> string \<Rightarrow> string \<Rightarrow> request" where
  "build_request QueryEscape registry apiURL continuationToken =
     \<lparr>url = (if continuationToken \<noteq> []
              then apiURL @ ''&continuationToken='' @ QueryEscape continuationToken
              else apiURL),
      basic_auth = (if Username registry \<noteq> [] \<and> Password registry \<noteq> []
                    then Some (Username registry, Password registry) else None)\<rparr>"

text \<open>
  The loop \<open>for { ... }\<close> of \<open>GetAvailableVersions\<close>. \<open>url.QueryEscape\<close> is a parameter.
  When the outcomes run out the loop has not returned: \<open>returned\<close> is \<open>None\<close>.
\<close>

fun fetch_pages ::
  "(string \<Rightarrow> string) \<Rightarrow> Registry \<Rightarrow> SDKRepository \<Rightarrow> string \<Rightarrow> http_result list \<Rightarrow>
   string \<Rightarrow> NexusAsset list \<Rightarrow> request list \<Rightarrow> (string + NexusAsset list) run" where
  "fetch_pages QueryEscape registry repo apiURL [] continuationToken allItems log =
     \<lparr>returned = None, sent = log, unread = []\<rparr>"
| "fetch_pages QueryEscape registry repo apiURL (r # rs) continuationToken allItems log =
     (let req = build_request QueryEscape registry apiURL continuationToken
      in case r of
           RequestError e \<Rightarrow>
             \<lparr>returned = Some (Inl (''failed to create HTTP request: '' @ e)),
              sent = log, unread = rs\<rparr>
         | TransportError e \<Rightarrow>
             \<lparr>returned = Some (Inl (''failed to query Nexus API: '' @ e)),
              sent = log @ [req], unread = rs\<rparr>
         | HttpResponse status body \<Rightarrow>
             if status \<noteq> 200 then
               \<lparr>returned = Some (Inl (''nexus API returned '' @ Itoa status @
                    '': Check if the path '' @ SDKRepository.Path repo @ '' exists in Nexus'')),
                sent = log @ [req], unread = rs\<rparr>
             else (case body of
                     Inl e \<Rightarrow>
                       \<lparr>returned = Some (Inl (''failed to decode JSON response: '' @ e)),
                        sent = log @ [req], unread = rs\<rparr>
                   | Inr (items, token) \<Rightarrow>
                       if token \<noteq> [] then
                         fetch_pages QueryEscape registry repo apiURL rs token
                           (allItems @ items) (log @ [req])
                       else
                         \<lparr>returned = Some (Inr (allItems @ items)),
                          sent = log @ [req], unread = rs\<rparr>))"

subsection \<open>Processing the collected items\<close>

text \<open>The normalisation of \<open>distributionPath\<close> into \<open>pathPrefix\<close>.\<close>

definition pathPrefix :: "string \<Rightarrow> string" where
  "pathPrefix distributionPath =
     (let pathPrefix = ''/'' @ TrimPrefix distributionPath ''/''
      in if \<not> HasSuffix pathPrefix ''/'' then pathPrefix @ ''/'' else pathPrefix)"

text \<open>
  The variables the loop \<open>for _, item := range allItems\<close> updates. \<open>seenVersions\<close> is a
  Go \<open>map[string]bool\<close>; reading a missing key gives \<open>false\<close>.
\<close>

record items_state =
  sdkAssets :: "SDKAsset list"
  ignoredFiles :: "string list"
  seenVersions :: "string \<rightharpoonup> bool"

definition seen :: "(string \<rightharpoonup> bool) \<Rightarrow> string \<Rightarrow> bool" where
  "seen m v = (case m v of Some b \<Rightarrow> b | None \<Rightarrow> False)"

text \<open>One round of the loop over \<open>allItems\<close>; each \<open>continue\<close> is a branch.\<close>

definition process_item ::
  "'re regexp \<Rightarrow> NexusClient \<Rightarrow> SDKRepository \<Rightarrow> NexusAsset \<Rightarrow> items_state \<Rightarrow> items_state" where
  "process_item lib c repo item st =
     (let distributionPath = SDKRepository.Path repo
      in if distributionPath \<noteq> [] \<and>
            \<not> HasPrefix (NexusAsset.Path item) (pathPrefix distributionPath)
         then st\<lparr>ignoredFiles := ignoredFiles st @ [NexusAsset.Path item]\<rparr>
         else (case ExtractVersionByType lib (parser c) (NexusAsset.Path item)
                      (SDKRepository.Type repo) of
                 Inl err \<Rightarrow> st\<lparr>ignoredFiles := ignoredFiles st @ [NexusAsset.Path item]\<rparr>
               | Inr (versionName, patternName) \<Rightarrow>
                   if \<not> seen (seenVersions st) versionName
                   then st\<lparr>seenVersions := (seenVersions st)(versionName \<mapsto> True),
                           sdkAssets := sdkAssets st @
                             [\<lparr>Version = versionName,
                               DownloadUrl = NexusAsset.DownloadUrl item,
                               Filename = versionName,
                               Size = 0\<rparr>]\<rparr>
                   else st))"

fun process_items ::
  "'re regexp \<Rightarrow> NexusClient \<Rightarrow> SDKRepository \<Rightarrow> NexusAsset list \<Rightarrow> items_state \<Rightarrow> items_state" where
  "process_items lib c repo [] st = st"
| "process_items lib c repo (item # items) st =
     process_items lib c repo items (process_item lib c repo item st)"

text \<open>
  \<open>sort.Slice\<close> with \<open>less(i, j) = sdkAssets[i].Version > sdkAssets[j].Version\<close>, as an
  insertion sort. \<open>sort.Slice\<close> is not stable, but the versions of the slice it is
  given are pairwise distinct, and then the order by \<open>>\<close> fixes the result: every
  arrangement of the same assets that is sorted by \<open>less\<close> is the one computed here
  (lemma \<open>sort_desc_unique\<close> below).
\<close>

fun insert_desc :: "SDKAsset \<Rightarrow> SDKAsset list \<Rightarrow> SDKAsset list" where
  "insert_desc a [] = [a]"
| "insert_desc a (b # bs) =
     (if str_less (Version b) (Version a) then a # b # bs else b # insert_desc a bs)"

definition sort_desc :: "SDKAsset list \<Rightarrow> SDKAsset list" where
  "sort_desc xs = foldr insert_desc xs []"

text \<open>The \<open>less\<close> function handed to \<open>sort.Slice\<close>, on the assets themselves.\<close>

definition newer :: "SDKAsset \<Rightarrow> SDKAsset \<Rightarrow> bool" where
  "newer a b = str_less (Version b) (Version a)"

text \<open>The optional filter \<open>if versionFilter != ""\<close>.\<close>

definition filter_versions :: "string \<Rightarrow> SDKAsset list \<Rightarrow> SDKAsset list" where
  "filter_versions versionFilter assets =
     (if versionFilter \<noteq> [] then filter (\<lambda>asset. Contains (Version asset) versionFilter) assets
      else assets)"

text \<open>Everything after the pagination loop, for the collected \<open>allItems\<close>.\<close>

definition resolve_items ::
  "'re regexp \<Rightarrow> NexusClient \<Rightarrow> SDKRepository \<Rightarrow> string \<Rightarrow> NexusAsset list \<Rightarrow>
   string + SDKAsset list" where
  "resolve_items lib c repo versionFilter allItems =
     (let st = process_items lib c repo allItems
                 \<lparr>sdkAssets = [], ignoredFiles = [], seenVersions = Map.empty\<rparr>;
          sdkAssets = filter_versions versionFilter (sdkAssets st)
      in if length sdkAssets = 0 then
           (if versionFilter \<noteq> []
            then Inl (''no version '' @ versionFilter @ '' found for '' @ SDKRepository.Path repo)
            else Inl (''no versions found for '' @ SDKRepository.Path repo))
         else Inr (sort_desc sdkAssets))"

definition GetAvailableVersions ::
  "'re regexp \<Rightarrow> (string \<Rightarrow> string) \<Rightarrow> NexusClient \<Rightarrow> http_result list \<Rightarrow>
   SDKRepository \<Rightarrow> Registry \<Rightarrow> string \<Rightarrow> (string + SDKAsset list) run" where
  "GetAvailableVersions lib QueryEscape c net repo registry versionFilter =
     (let apiURL = ReplaceAll (APIURL registry) ''{repository}'' (Repository repo);
          pages = fetch_pages QueryEscape registry repo apiURL net [] [] []
      in case returned pages of
           None \<Rightarrow> \<lparr>returned = None, sent = sent pages, unread = unread pages\<rparr>
         | Some (Inl err) \<Rightarrow>
             \<lparr>returned = Some (Inl err), sent = sent pages, unread = unread pages\<rparr>
         | Some (Inr allItems) \<Rightarrow>
             \<lparr>returned = Some (resolve_items lib c repo versionFilter allItems),
              sent = sent pages, unread = unread pages\<rparr>)"


section \<open>Reference definitions\<close>

text \<open>
  The definitions of this section are not translations of code. They restate, in the
  words of the design, what the functions above are expected to compute, and the
  theorems compare the two.
\<close>

subsection \<open>Version comparator\<close>

text \<open>
  An intermediate form of \<open>CompareVersions\<close>, used in the proofs: the loop of the code
  as a recursion over the two slices, with the code's own \<open>Atoi\<close> and string order.
\<close>

datatype cmp = Less | Equal | Greater

definition part_cmp :: "string \<Rightarrow> string \<Rightarrow> cmp" where
  "part_cmp a b =
     (case (Atoi a, Atoi b) of
        (Some m, Some n) \<Rightarrow> if m < n then Less else if n < m then Greater else Equal
      | _ \<Rightarrow> if str_less a b then Less else if str_less b a then Greater else Equal)"

fun compare_ref :: "string list \<Rightarrow> string list \<Rightarrow> bool" where
  "compare_ref (a # as) (b # bs) =
     (case part_cmp a b of Less \<Rightarrow> True | Greater \<Rightarrow> False | Equal \<Rightarrow> compare_ref as bs)"
| "compare_ref [] (b # bs) = True"
| "compare_ref as [] = False"

definition parts_ref :: "string \<Rightarrow> string list" where
  "parts_ref v =
     Split (map (\<lambda>c. if c = CHR ''u'' \<or> c = CHR ''_'' then CHR ''.'' else c) v) CHR ''.''"

definition CompareVersions_ref :: "string \<Rightarrow> string \<Rightarrow> bool" where
  "CompareVersions_ref v1 v2 = compare_ref (parts_ref v1) (parts_ref v2)"

text \<open>
  The reference algorithm of \<open>CompareVersions\<close>, written from the words of the design
  and independent of the code's \<open>Atoi\<close> and string order: rewrite \<open>u\<close> and \<open>_\<close> to \<open>.\<close>,
  split on \<open>.\<close>, compare position by position, numerically when both parts parse as
  integers and lexicographically otherwise. Two parts differ when that comparison
  does not find them equal. The first position that differs decides; when no
  compared position differs the version with strictly fewer parts is the older one.

  A part parses as an integer when it is an optional sign \<open>+\<close> or \<open>-\<close> followed by one
  or more decimal digits; \<open>int_of_part\<close> is its value, of any size.
\<close>

definition digit_of :: "char \<Rightarrow> int option" where
  "digit_of c =
     (let n = int (of_char c) in if 48 \<le> n \<and> n \<le> 57 then Some (n - 48) else None)"

fun decimal :: "int \<Rightarrow> string \<Rightarrow> int option" where
  "decimal a [] = Some a"
| "decimal a (c # cs) =
     (case digit_of c of None \<Rightarrow> None | Some d \<Rightarrow> decimal (10 * a + d) cs)"

definition int_of_part :: "string \<Rightarrow> int option" where
  "int_of_part s =
     (case s of
        [] \<Rightarrow> None
      | c # cs \<Rightarrow>
          if c = CHR ''-'' then
            (if cs = [] then None else map_option uminus (decimal 0 cs))
          else if c = CHR ''+'' then
            (if cs = [] then None else decimal 0 cs)
          else decimal 0 (c # cs))"

text \<open>A part that parses as an integer of the 64-bit signed range.\<close>

definition int64_of_part :: "string \<Rightarrow> int option" where
  "int64_of_part s =
     (case int_of_part s of
        None \<Rightarrow> None
      | Some n \<Rightarrow> if - (2 ^ 63) \<le> n \<and> n < 2 ^ 63 then Some n else None)"

text \<open>
  Lexicographic order on byte strings: the bytes at the first index where the strings
  differ decide, and a proper prefix is smaller.
\<close>

definition lex_less :: "string \<Rightarrow> string \<Rightarrow> bool" where
  "lex_less a b =
     (let k = length (takeWhile (\<lambda>(x, y). x = y) (zip a b))
      in if k < length a \<and> k < length b then (of_char (a ! k) :: nat) < of_char (b ! k)
         else length a < length b)"

text \<open>The comparison of two parts, for a given notion of "parses as an integer".\<close>

definition ref_part_cmp :: "(string \<Rightarrow> int option) \<Rightarrow> string \<Rightarrow> string \<Rightarrow> cmp" where
  "ref_part_cmp parse a b =
     (case (parse a, parse b) of
        (Some m, Some n) \<Rightarrow> if m < n then Less else if n < m then Greater else Equal
      | _ \<Rightarrow> if lex_less a b then Less else if lex_less b a then Greater else Equal)"

fun ref_compare :: "(string \<Rightarrow> int option) \<Rightarrow> string list \<Rightarrow> string list \<Rightarrow> bool" where
  "ref_compare parse (a # as) (b # bs) =
     (case ref_part_cmp parse a b of
        Less \<Rightarrow> True
      | Greater \<Rightarrow> False
      | Equal \<Rightarrow> ref_compare parse as bs)"
| "ref_compare parse [] (b # bs) = True"
| "ref_compare parse as [] = False"

text \<open>The reference algorithm as the claim states it: every integer part is numeric.\<close>

definition CompareVersions_stated :: "string \<Rightarrow> string \<Rightarrow> bool" where
  "CompareVersions_stated v1 v2 = ref_compare int_of_part (parts_ref v1) (parts_ref v2)"

text \<open>
  The reference algorithm with numeric comparison only for parts within the 64-bit
  signed range.
\<close>

definition CompareVersions_amended :: "string \<Rightarrow> string \<Rightarrow> bool" where
  "CompareVersions_amended v1 v2 = ref_compare int64_of_part (parts_ref v1) (parts_ref v2)"

text \<open>
  The leading decimal integer of a string that starts with digits followed by \<open>.\<close> or
  by \<open>u\<close>.
\<close>

definition leading_int :: "string \<Rightarrow> string option" where
  "leading_int s =
     (let ds = takeWhile is_digit s; rest = dropWhile is_digit s
      in if ds \<noteq> [] \<and> rest \<noteq> [] \<and> (hd rest = CHR ''.'' \<or> hd rest = CHR ''u'')
         then Some ds else None)"

text \<open>Stripping the leading alphabetic, \<open>-\<close> and \<open>_\<close> prefix.\<close>

definition is_prefix_char :: "char \<Rightarrow> bool" where
  "is_prefix_char c =
     (c \<in> set ''abcdefghijklmnopqrstuvwxyzABCDEFGHIJKLMNOPQRSTUVWXYZ'' \<or>
      c = CHR ''-'' \<or> c = CHR ''_'')"

definition strip_prefix :: "string \<Rightarrow> string" where
  "strip_prefix s = dropWhile is_prefix_char s"

text \<open>
  \<open>ExtractMajor\<close> read as "try the two separator checks, then strip the prefix and
  retry the same two checks on the remainder".
\<close>

definition ExtractMajor_retry :: "string \<Rightarrow> string" where
  "ExtractMajor_retry s =
     (case leading_int s of
        Some d \<Rightarrow> d
      | None \<Rightarrow> (case leading_int (strip_prefix s) of Some d \<Rightarrow> d | None \<Rightarrow> []))"

text \<open>
  What the fallback of \<open>ExtractMajor\<close> does with the stripped remainder: nothing without
  a separator; otherwise the text before the first \<open>.\<close> and the first \<open>u\<close>, provided
  \<open>strconv.Atoi\<close> accepts it.
\<close>

definition major_after_strip :: "string \<Rightarrow> string" where
  "major_after_strip r =
     (if CHR ''.'' \<notin> set r \<and> CHR ''u'' \<notin> set r then []
      else let m = takeWhile (\<lambda>c. c \<noteq> CHR ''.'' \<and> c \<noteq> CHR ''u'') r
           in if Atoi m \<noteq> None then m else [])"

subsection \<open>Extractor\<close>

text \<open>
  Every (PatternSet, regex) pair of a table, PatternSets in table order and the regexes
  of each PatternSet in list order.
\<close>

definition candidates :: "Pattern list \<Rightarrow> (Pattern \<times> string) list" where
  "candidates ps = concat (map (\<lambda>pattern. map (Pair pattern) (Patterns pattern)) ps)"

text \<open>
  What one regex yields on a path: the first capture group and the PatternSet's name,
  when the regex compiles, matches, and has a capture group.
\<close>

definition capture :: "'re regexp \<Rightarrow> string \<Rightarrow> Pattern \<times> string \<Rightarrow> (string \<times> string) option" where
  "capture lib path pr =
     (case Compile lib (snd pr) of
        None \<Rightarrow> None
      | Some re \<Rightarrow>
          (let matches = FindStringSubmatch lib re path
           in if length matches > 1 then Some (matches ! 1, Name (fst pr)) else None))"

text \<open>The first pair of a list that yields anything.\<close>

fun first_capture ::
  "'re regexp \<Rightarrow> string \<Rightarrow> (Pattern \<times> string) list \<Rightarrow> (string \<times> string) option" where
  "first_capture lib path [] = None"
| "first_capture lib path (pr # prs) =
     (case capture lib path pr of
        Some r \<Rightarrow> Some r
      | None \<Rightarrow> first_capture lib path prs)"

text \<open>The first pair of a list that yields a non-empty first capture group.\<close>

fun first_nonempty_capture ::
  "'re regexp \<Rightarrow> string \<Rightarrow> (Pattern \<times> string) list \<Rightarrow> (string \<times> string) option" where
  "first_nonempty_capture lib path [] = None"
| "first_nonempty_capture lib path (pr # prs) =
     (case capture lib path pr of
        Some (version, name) \<Rightarrow>
          if version \<noteq> [] then Some (version, name)
          else first_nonempty_capture lib path prs
      | None \<Rightarrow> first_nonempty_capture lib path prs)"

text \<open>A PatternSet matches a path when one of its regexes yields something.\<close>

definition pattern_match :: "'re regexp \<Rightarrow> string \<Rightarrow> Pattern \<Rightarrow> (string \<times> string) option" where
  "pattern_match lib path pattern =
     first_capture lib path (map (Pair pattern) (Patterns pattern))"

text \<open>A table without the regexes that fail to compile.\<close>

definition remove_malformed :: "'re regexp \<Rightarrow> Parser \<Rightarrow> Parser" where
  "remove_malformed lib p =
     \<lparr>patterns =
        map (\<lambda>pattern. pattern\<lparr>Patterns := filter (\<lambda>r. Compile lib r \<noteq> None) (Patterns pattern)\<rparr>)
          (patterns p)\<rparr>"

subsection \<open>Resolver\<close>

text \<open>
  The version an item contributes: none when the prefix check drops it or the
  extraction fails.
\<close>

definition item_version ::
  "'re regexp \<Rightarrow> NexusClient \<Rightarrow> SDKRepository \<Rightarrow> NexusAsset \<Rightarrow> string option" where
  "item_version lib c repo item =
     (if SDKRepository.Path repo \<noteq> [] \<and>
         \<not> HasPrefix (NexusAsset.Path item) (pathPrefix (SDKRepository.Path repo))
      then None
      else (case ExtractVersionByType lib (parser c) (NexusAsset.Path item)
                   (SDKRepository.Type repo) of
              Inl err \<Rightarrow> None
            | Inr (versionName, patternName) \<Rightarrow> Some versionName))"

text \<open>The state before the loop over the items.\<close>

definition no_items :: items_state where
  "no_items = \<lparr>sdkAssets = [], ignoredFiles = [], seenVersions = Map.empty\<rparr>"

text \<open>A successful page as an outcome of the network.\<close>

definition page :: "NexusAsset list \<times> string \<Rightarrow> http_result" where
  "page p = HttpResponse 200 (Inr p)"

text \<open>
  The configured path normalised as the design words it: made to begin with \<open>/\<close> and to
  end with \<open>/\<close>.
\<close>

definition normalize_ref :: "string \<Rightarrow> string" where
  "normalize_ref p =
     (let q = (if p \<noteq> [] \<and> hd p = CHR ''/'' then p else CHR ''/'' # p)
      in if last q = CHR ''/'' then q else q @ ''/'')"

text \<open>The first item of a listing that contributes a given version.\<close>

definition first_item ::
  "'re regexp \<Rightarrow> NexusClient \<Rightarrow> SDKRepository \<Rightarrow> NexusAsset list \<Rightarrow> string \<Rightarrow>
   NexusAsset option" where
  "first_item lib c repo items v =
     List.find (\<lambda>item. item_version lib c repo item = Some v) items"

text \<open>
  The invariant of the loop over the items, after the items \<open>items\<close> have been
  processed: the versions of the assets are pairwise distinct, \<open>seenVersions\<close> holds
  exactly the versions of the assets, every asset carries its version as file name,
  size zero and the URL of the first item that contributes its version, and every
  version contributed so far has an asset.
\<close>

definition items_inv ::
  "'re regexp \<Rightarrow> NexusClient \<Rightarrow> SDKRepository \<Rightarrow> NexusAsset list \<Rightarrow> items_state \<Rightarrow> bool" where
  "items_inv lib c repo items st =
     (distinct (map Version (sdkAssets st)) \<and>
      (\<forall>v. seen (seenVersions st) v = (v \<in> Version ` set (sdkAssets st))) \<and>
      (\<forall>a \<in> set (sdkAssets st). Filename a = Version a \<and> Size a = 0 \<and>
         (\<exists>item. first_item lib c repo items (Version a) = Some item \<and>
                 SDKAsset.DownloadUrl a = NexusAsset.DownloadUrl item)) \<and>
      (\<forall>item \<in> set items. \<forall>v. item_version lib c repo item = Some v \<longrightarrow>
         v \<in> Version ` set (sdkAssets st)))"

section \<open>A regular-expression library for closed examples\<close>

text \<open>
  The theorems hold for every library. Closed examples need one, so here is a
  backtracking matcher for a fragment of Go's regexp syntax: literal bytes, \<open>.\<close>,
  the escapes \<open>\d\<close>, \<open>\.\<close>, \<open>\-\<close>, \<open>\_\<close> and \<open>\+\<close>, the greedy quantifiers \<open>+\<close> and \<open>*\<close>
  on a single atom, and capture groups that are neither nested nor quantified. On
  this fragment and on ASCII input, trying the longest repetition first at the
  leftmost start gives the leftmost-first match of Go. A regex outside the fragment
  does not compile here, although Go may accept it; the examples use only regexes of
  the fragment and regexes that Go rejects as well (a missing closing parenthesis).
\<close>

datatype rx_atom = Lit char | Digit | AnyChar

datatype rx_quant = Once | Plus | Star

datatype rx_tok = Atom rx_atom rx_quant | GroupOpen | GroupClose

fun atom_ok :: "rx_atom \<Rightarrow> char \<Rightarrow> bool" where
  "atom_ok (Lit a) c = (c = a)"
| "atom_ok Digit c = is_digit c"
| "atom_ok AnyChar c = (c \<noteq> CHR 0x0A)"

definition flush :: "rx_atom option \<Rightarrow> rx_tok list" where
  "flush pending = (case pending of None \<Rightarrow> [] | Some a \<Rightarrow> [Atom a Once])"

text \<open>
  The parser reads one atom ahead: \<open>pending\<close> is an atom that may still get a
  quantifier. The byte \<open>0x5C\<close> is the backslash.
\<close>

fun rx_parse :: "string \<Rightarrow> bool \<Rightarrow> rx_atom option \<Rightarrow> rx_tok list option" where
  "rx_parse [] in_group pending = (if in_group then None else Some (flush pending))"
| "rx_parse (c # cs) in_group pending =
     (if c = CHR ''+'' \<or> c = CHR ''*'' then
        (case pending of
           None \<Rightarrow> None
         | Some a \<Rightarrow>
             map_option (\<lambda>ts. Atom a (if c = CHR ''+'' then Plus else Star) # ts)
               (rx_parse cs in_group None))
      else if c = CHR ''('' then
        (if in_group then None
         else map_option (\<lambda>ts. flush pending @ GroupOpen # ts) (rx_parse cs True None))
      else if c = CHR '')'' then
        (if in_group
         then map_option (\<lambda>ts. flush pending @ GroupClose # ts) (rx_parse cs False None)
         else None)
      else if c = CHR 0x5C then
        (case cs of
           [] \<Rightarrow> None
         | d # ds \<Rightarrow>
             if d = CHR ''d''
             then map_option (\<lambda>ts. flush pending @ ts) (rx_parse ds in_group (Some Digit))
             else if d \<in> set ''.-_+''
             then map_option (\<lambda>ts. flush pending @ ts) (rx_parse ds in_group (Some (Lit d)))
             else None)
      else if c = CHR ''.'' then
        map_option (\<lambda>ts. flush pending @ ts) (rx_parse cs in_group (Some AnyChar))
      else if c \<in> set ''?|[]{}^$'' then None
      else map_option (\<lambda>ts. flush pending @ ts) (rx_parse cs in_group (Some (Lit c))))"

record rx_state =
  whole :: string
  groups :: "string list"
  opened :: "string option"

definition consume :: "string \<Rightarrow> rx_state \<Rightarrow> rx_state" where
  "consume cs st =
     st\<lparr>whole := whole st @ cs, opened := map_option (\<lambda>g. g @ cs) (opened st)\<rparr>"

text \<open>The first count, from \<open>k\<close> down to \<open>lo\<close>, for which the rest of the regex matches.\<close>

primrec greedy :: "(nat \<Rightarrow> 'a option) \<Rightarrow> nat \<Rightarrow> nat \<Rightarrow> 'a option" where
  "greedy f lo 0 = (if lo = 0 then f 0 else None)"
| "greedy f lo (Suc k) =
     (case f (Suc k) of
        Some r \<Rightarrow> Some r
      | None \<Rightarrow> if Suc k \<le> lo then None else greedy f lo k)"

fun rx_match :: "rx_tok list \<Rightarrow> string \<Rightarrow> rx_state \<Rightarrow> rx_state option" where
  "rx_match [] s st = Some st"
| "rx_match (GroupOpen # ts) s st = rx_match ts s (st\<lparr>opened := Some []\<rparr>)"
| "rx_match (GroupClose # ts) s st =
     rx_match ts s
       (st\<lparr>groups := groups st @ [case opened st of Some g \<Rightarrow> g | None \<Rightarrow> []],
           opened := None\<rparr>)"
| "rx_match (Atom a q # ts) s st =
     (let n = length (takeWhile (atom_ok a) s);
          continue = (\<lambda>k. rx_match ts (drop k s) (consume (take k s) st))
      in case q of
           Once \<Rightarrow> if 1 \<le> n then continue 1 else None
         | Plus \<Rightarrow> greedy continue 1 n
         | Star \<Rightarrow> greedy continue 0 n)"

text \<open>The leftmost start at which the regex matches.\<close>

fun rx_search :: "rx_tok list \<Rightarrow> string \<Rightarrow> string list" where
  "rx_search ts [] =
     (case rx_match ts [] \<lparr>whole = [], groups = [], opened = None\<rparr> of
        Some st \<Rightarrow> whole st # groups st
      | None \<Rightarrow> [])"
| "rx_search ts (c # cs) =
     (case rx_match ts (c # cs) \<lparr>whole = [], groups = [], opened = None\<rparr> of
        Some st \<Rightarrow> whole st # groups st
      | None \<Rightarrow> rx_search ts cs)"

definition rx_lib :: "rx_tok list regexp" where
  "rx_lib = \<lparr>Compile = (\<lambda>s. rx_parse s False None), FindStringSubmatch = rx_search\<rparr>"


section \<open>Example data\<close>

text \<open>
  The regex \<open>jdk-(\d+\.\d+\.\d+_\d+)\<close> of scenario A; the byte \<open>0x5C\<close> is the
  backslash.
\<close>

definition dotted_build_regex :: string where
  "dotted_build_regex =
     ''jdk-('' @ CHR 0x5C # ''d+'' @ CHR 0x5C # ''.'' @ CHR 0x5C # ''d+'' @ CHR 0x5C # ''.'' @
     CHR 0x5C # ''d+_'' @ CHR 0x5C # ''d+)''"

definition temurin_pattern :: Pattern where
  "temurin_pattern =
     \<lparr>Name = ''t'', Pattern.Type = ''jdk'', Description = [], Patterns = [dotted_build_regex]\<rparr>"

text \<open>
  Two PatternSets that both match the path \<open>/17/jdk\<close>: the first with an empty first
  capture group, the second with the capture \<open>17\<close>.
\<close>

definition generic_pattern :: Pattern where
  "generic_pattern =
     \<lparr>Name = ''generic'', Pattern.Type = ''jdk'', Description = [], Patterns = [''jdk(.*)'']\<rparr>"

definition dir_pattern :: Pattern where
  "dir_pattern =
     \<lparr>Name = ''dir'', Pattern.Type = ''jdk'', Description = [], Patterns = [''/(.+)/jdk'']\<rparr>"

definition demo_client :: NexusClient where
  "demo_client = \<lparr>parser = \<lparr>patterns = [temurin_pattern]\<rparr>\<rparr>"

definition demo_repo :: SDKRepository where
  "demo_repo =
     \<lparr>SDKRepository.Type = ''jdk'', Registry = ''nexus'', Repository = ''raw'',
      SDKRepository.Path = ''jdk/t''\<rparr>"

definition demo_registry :: Registry where
  "demo_registry =
     \<lparr>Registry.Type = ''nexus'', APIURL = ''http://n/assets?repository={repository}'',
      Username = [], Password = []\<rparr>"

definition demo_item :: "string \<Rightarrow> string \<Rightarrow> NexusAsset" where
  "demo_item path u = \<lparr>NexusAsset.Path = path, NexusAsset.DownloadUrl = u, Checksum = []\<rparr>"

text \<open>
  A listing of two pages: an archive and an item of a sibling distribution on the
  first page; a checksum file of the same version, another archive and a file without
  a version on the second.
\<close>

definition demo_pages :: "(NexusAsset list \<times> string) list" where
  "demo_pages =
     [([demo_item ''/jdk/t/jdk-11.0.24_8-linux.tar.gz'' ''u1'',
        demo_item ''/jdk/t-nightly/jdk-17.0.1_2-linux.tar.gz'' ''u2''], ''tok1''),
      ([demo_item ''/jdk/t/jdk-11.0.24_8-linux.tar.gz.sha256'' ''u3'',
        demo_item ''/jdk/t/jdk-21.0.6_7-linux.tar.gz'' ''u4'',
        demo_item ''/jdk/t/README.txt'' ''u5''], [])]"

definition demo_assets :: "SDKAsset list" where
  "demo_assets =
     [\<lparr>Version = ''21.0.6_7'', DownloadUrl = ''u4'', Filename = ''21.0.6_7'', Size = 0\<rparr>,
      \<lparr>Version = ''11.0.24_8'', DownloadUrl = ''u1'', Filename = ''11.0.24_8'', Size = 0\<rparr>]"

section \<open>The version comparator: proofs\<close>

subsection \<open>Library facts\<close>

lemma str_less_asym: "str_less a b \<Longrightarrow> \<not> str_less b a"
  by (induction a b rule: str_less.induct) auto

lemma HasPrefix_single: "HasPrefix s [c] = (s \<noteq> [] \<and> hd s = c)"
  by (cases s) (auto simp: HasPrefix_def)

lemma Contains_single: "Contains s [c] = (c \<in> set s)"
  by (induction s) (auto simp: HasPrefix_single)

text \<open>\<open>Split\<close> never returns the empty slice, so indexing its result at 0 cannot panic.\<close>

lemma Split_not_Nil: "Split s c \<noteq> []"
  by (induction s) (auto split: list.splits)

lemma hd_Split: "hd (Split s c) = takeWhile (\<lambda>x. x \<noteq> c) s"
  by (induction s) (auto split: list.splits simp: Split_not_Nil)

lemma takeWhile_twice:
  "takeWhile (\<lambda>x. x \<noteq> b) (takeWhile (\<lambda>x. x \<noteq> a) s) =
   takeWhile (\<lambda>x. x \<noteq> a \<and> x \<noteq> b) s"
  by (induction s) auto

lemma digit_not_special:
  "is_digit c \<Longrightarrow> c \<noteq> CHR ''.'' \<and> c \<noteq> CHR ''u'' \<and> c \<noteq> CHR ''-'' \<and> c \<noteq> CHR ''+''"
  by (auto simp: is_digit_def)

lemma digit_not_prefix_char: "is_digit c \<Longrightarrow> \<not> is_prefix_char c"
  by (auto simp: is_digit_def is_prefix_char_def)

lemma digit_val_nonneg: "is_digit c \<Longrightarrow> 0 \<le> digit_val c"
  by (auto simp: is_digit_def digit_val_def byte_def)

lemma foldl_digits_nonneg:
  "list_all is_digit ds \<Longrightarrow> 0 \<le> a \<Longrightarrow> 0 \<le> foldl (\<lambda>n c. n * 10 + digit_val c) a ds"
  by (induction ds arbitrary: a) (auto simp: digit_val_nonneg)

lemma digits_val_nonneg: "list_all is_digit ds \<Longrightarrow> 0 \<le> digits_val ds"
  by (simp add: digits_val_def foldl_digits_nonneg)

lemma Atoi_digits:
  assumes "d \<noteq> []" "list_all is_digit d" "digits_val d < 2 ^ 63"
  shows "Atoi d = Some (digits_val d)"
proof -
  from assms(1,2) have "is_digit (hd d)" by (cases d) auto
  then have "hd d \<noteq> CHR ''-''" "hd d \<noteq> CHR ''+''" using digit_not_special by blast+
  with assms digits_val_nonneg [OF assms(2)] show ?thesis
    by (simp add: Atoi_def Let_def)
qed

subsection \<open>CompareVersions against the reference algorithm\<close>

lemma compare_ref_short: "compare_ref [] ys = (ys \<noteq> [])"
  by (cases ys) auto

lemma compare_from_ref:
  "i \<le> length xs \<Longrightarrow> i \<le> length ys \<Longrightarrow>
   compare_from xs ys (min (length xs) (length ys)) i = compare_ref (drop i xs) (drop i ys)"
proof (induction xs ys "min (length xs) (length ys)" i rule: compare_from.induct)
  case (1 v1Parts v2Parts i)
  show ?case
  proof (cases "i < min (length v1Parts) (length v2Parts)")
    case True
    then have dx: "drop i v1Parts = (v1Parts ! i) # drop (Suc i) v1Parts"
      and dy: "drop i v2Parts = (v2Parts ! i) # drop (Suc i) v2Parts"
      by (simp_all add: Cons_nth_drop_Suc)
    from True have le: "Suc i \<le> length v1Parts" "Suc i \<le> length v2Parts" by simp_all
    show ?thesis
      using True 1 le
      by (subst compare_from.simps) (auto simp: dx dy part_cmp_def split: option.splits)
  next
    case False
    with "1.prems" have "i = length v1Parts \<or> i = length v2Parts" by auto
    then show ?thesis
      using False "1.prems"
      by (subst compare_from.simps) (auto simp: compare_ref_short)
  qed
qed

lemma Replace_twice:
  "Replace (Replace v CHR ''u'' CHR ''.'') CHR ''_'' CHR ''.'' =
   map (\<lambda>c. if c = CHR ''u'' \<or> c = CHR ''_'' then CHR ''.'' else c) v"
  by (simp add: Replace_def)

lemma CompareVersions_eq_ref: "CompareVersions v1 v2 = CompareVersions_ref v1 v2"
proof -
  have m: "(if length b < length a then length b else length a) = min (length a) (length b)"
    for a b :: "string list" by simp
  show ?thesis
    unfolding CompareVersions_def CompareVersions_ref_def parts_ref_def Let_def Replace_twice m
    using compare_from_ref [of 0] by simp
qed

lemma part_cmp_swap:
  "part_cmp b a = (case part_cmp a b of Less \<Rightarrow> Greater | Equal \<Rightarrow> Equal | Greater \<Rightarrow> Less)"
  by (auto simp: part_cmp_def dest: str_less_asym split: option.splits)

lemma compare_ref_asym: "compare_ref xs ys \<Longrightarrow> \<not> compare_ref ys xs"
proof (induction xs ys rule: compare_ref.induct)
  case (1 a as b bs)
  then show ?case by (simp add: part_cmp_swap [of b a] split: cmp.splits)
qed simp_all

subsection \<open>The code's Atoi and string order against the reference notions\<close>

lemma lex_less_str_less: "lex_less a b = str_less a b"
  by (induction a b rule: str_less.induct) (auto simp: lex_less_def byte_def Let_def)

lemma is_digit_of_char: "is_digit c = (48 \<le> (of_char c :: nat) \<and> (of_char c :: nat) \<le> 57)"
proof
  assume "is_digit c"
  then show "48 \<le> (of_char c :: nat) \<and> (of_char c :: nat) \<le> 57"
    by (auto simp: is_digit_def)
next
  assume a: "48 \<le> (of_char c :: nat) \<and> (of_char c :: nat) \<le> 57"
  have "(of_char ` set ''0123456789'' :: nat set) = {48, 49, 50, 51, 52, 53, 54, 55, 56, 57}"
    by simp
  moreover from a have "(of_char c :: nat) \<in> {48, 49, 50, 51, 52, 53, 54, 55, 56, 57}"
    by (simp del: of_char_Char) arith
  ultimately have "(of_char c :: nat) \<in> of_char ` set ''0123456789''" by blast
  then obtain d where d: "d \<in> set ''0123456789''" and e: "(of_char c :: nat) = of_char d"
    by blast
  from e have "c = d" by simp
  with d show "is_digit c" by (simp add: is_digit_def)
qed

lemma digit_of_is_digit:
  "digit_of c = (if is_digit c then Some (digit_val c) else None)"
  by (auto simp: digit_of_def is_digit_of_char digit_val_def byte_def Let_def)

lemma decimal_foldl:
  "decimal a cs =
   (if list_all is_digit cs then Some (foldl (\<lambda>n c. n * 10 + digit_val c) a cs) else None)"
  by (induction cs arbitrary: a) (simp_all add: digit_of_is_digit mult.commute)

lemma decimal_digits_val:
  "decimal 0 cs = (if list_all is_digit cs then Some (digits_val cs) else None)"
  by (simp add: decimal_foldl digits_val_def)

lemma int_of_part_digits:
  "int_of_part s =
     (let neg = (s \<noteq> [] \<and> hd s = CHR ''-'');
          body = (if s \<noteq> [] \<and> (hd s = CHR ''-'' \<or> hd s = CHR ''+'') then tl s else s)
      in if body = [] \<or> \<not> list_all is_digit body then None
         else Some (if neg then - digits_val body else digits_val body))"
proof (cases s)
  case Nil
  then show ?thesis by (simp add: int_of_part_def)
next
  case (Cons c cs)
  have "int_of_part (c # cs) =
     (if c = CHR ''-'' then (if cs = [] then None else map_option uminus (decimal 0 cs))
      else if c = CHR ''+'' then (if cs = [] then None else decimal 0 cs)
      else decimal 0 (c # cs))"
    by (simp only: int_of_part_def list.case)
  then show ?thesis
    unfolding Cons decimal_digits_val by (simp add: Let_def)
qed

text \<open>\<open>strconv.Atoi\<close> accepts exactly the integer parts of the 64-bit signed range.\<close>

lemma Atoi_int64: "Atoi s = int64_of_part s"
  unfolding Atoi_def int64_of_part_def int_of_part_digits Let_def
  by auto

lemma ref_part_cmp_code: "ref_part_cmp int64_of_part a b = part_cmp a b"
  by (simp add: ref_part_cmp_def part_cmp_def Atoi_int64 lex_less_str_less)

lemma ref_compare_code: "ref_compare int64_of_part xs ys = compare_ref xs ys"
  by (induction xs ys rule: compare_ref.induct)
     (simp_all add: ref_part_cmp_code split: cmp.splits)

lemma CompareVersions_eq_amended: "CompareVersions v1 v2 = CompareVersions_amended v1 v2"
  by (simp add: CompareVersions_eq_ref CompareVersions_ref_def CompareVersions_amended_def
      ref_compare_code)

text \<open>
  Claim C4, as stated, compares two parts numerically whenever both parse as
  integers. The code asks \<open>strconv.Atoi\<close>, which reports a range error for a part
  outside the 64-bit signed range, and then compares the two parts as strings. The
  parts \<open>9223372036854775808\<close> (that is \<open>2^63\<close>) and \<open>10000000000000000000\<close> are integers
  and the first is the smaller, so the reference algorithm calls
  \<open>1.9223372036854775808\<close> older than \<open>1.10000000000000000000\<close>; the code compares the
  strings, finds \<open>9\<close> above \<open>1\<close>, and returns false.
\<close>

theorem CompareVersions_numeric_counterexample:
  "int_of_part ''9223372036854775808'' = Some 9223372036854775808 \<and>
   int_of_part ''10000000000000000000'' = Some 10000000000000000000 \<and>
   CompareVersions_stated ''1.9223372036854775808'' ''1.10000000000000000000'' \<and>
   \<not> CompareVersions ''1.9223372036854775808'' ''1.10000000000000000000''"
  by code_simp

text \<open>
  Claim C4, amended. For every pair of version strings, \<open>CompareVersions\<close> returns
  what this reference algorithm returns: \<open>u\<close> and \<open>_\<close> rewritten to \<open>.\<close>, both strings
  split on \<open>.\<close>, the parts compared position by position, numerically when both parts
  are an optional sign followed by decimal digits with a value in the 64-bit signed
  range (what \<open>strconv.Atoi\<close> accepts) and lexicographically by bytes otherwise, the
  first position whose parts differ under that comparison deciding, and otherwise the
  version with strictly fewer parts being the older one. In particular \<open>"21.0.6"\<close> is
  older than \<open>"21.0.6_7"\<close>; \<open>9\<close> is below \<open>10\<close> as a number although not as a string;
  \<open>10a\<close> is below \<open>9a\<close>, and \<open>10\<close> below \<open>9a\<close>, as strings; \<open>07\<close> and \<open>7\<close> do not differ;
  and parts from \<open>2^63\<close> on are compared as strings.
\<close>

theorem CompareVersions_reference:
  "CompareVersions v1 v2 = CompareVersions_amended v1 v2 \<and>
   CompareVersions ''21.0.6'' ''21.0.6_7'' \<and> \<not> CompareVersions ''21.0.6_7'' ''21.0.6'' \<and>
   CompareVersions ''1.9'' ''1.10'' \<and> \<not> CompareVersions ''1.10'' ''1.9'' \<and>
   \<not> lex_less ''9'' ''10'' \<and>
   CompareVersions ''1.10a'' ''1.9a'' \<and> \<not> CompareVersions ''1.9a'' ''1.10a'' \<and>
   CompareVersions ''1.10'' ''1.9a'' \<and>
   CompareVersions ''1.07.1'' ''1.7.2'' \<and>
   CompareVersions ''1.9223372036854775806'' ''1.9223372036854775807'' \<and>
   \<not> CompareVersions ''1.9223372036854775808'' ''1.10000000000000000000''"
proof -
  have a: "CompareVersions ''21.0.6'' ''21.0.6_7'' \<and> \<not> CompareVersions ''21.0.6_7'' ''21.0.6''"
    by code_simp
  have b: "CompareVersions ''1.9'' ''1.10'' \<and> \<not> CompareVersions ''1.10'' ''1.9'' \<and>
    \<not> lex_less ''9'' ''10''"
    by code_simp
  have c: "CompareVersions ''1.10a'' ''1.9a'' \<and> \<not> CompareVersions ''1.9a'' ''1.10a'' \<and>
    CompareVersions ''1.10'' ''1.9a'' \<and> CompareVersions ''1.07.1'' ''1.7.2''"
    by code_simp
  have d: "CompareVersions ''1.9223372036854775806'' ''1.9223372036854775807'' \<and>
    \<not> CompareVersions ''1.9223372036854775808'' ''1.10000000000000000000''"
    by code_simp
  from a b c d CompareVersions_eq_amended [of v1 v2] show ?thesis by blast
qed

theorem CompareVersions_reference_witness:
  "CompareVersions ''8u432b06'' ''8u442b06'' = CompareVersions_amended ''8u432b06'' ''8u442b06'' \<and>
   CompareVersions_amended ''8u432b06'' ''8u442b06'' \<and>
   CompareVersions ''11.0.9'' ''11.0.10'' = CompareVersions_amended ''11.0.9'' ''11.0.10'' \<and>
   CompareVersions_amended ''11.0.9'' ''11.0.10'' \<and>
   \<not> CompareVersions_amended ''11.0.10'' ''11.0.9''"
proof -
  have e: "CompareVersions_amended ''8u432b06'' ''8u442b06'' \<and>
    CompareVersions_amended ''11.0.9'' ''11.0.10'' \<and>
    \<not> CompareVersions_amended ''11.0.10'' ''11.0.9''"
    by code_simp
  from e CompareVersions_reference [of "''8u432b06''" "''8u442b06''"]
    CompareVersions_reference [of "''11.0.9''" "''11.0.10''"]
  show ?thesis by blast
qed

text \<open>
  Claim C6. For every pair of distinct version strings \<open>x\<close> and \<open>y\<close>,
  \<open>CompareVersions x y\<close> and \<open>CompareVersions y x\<close> are not both true.
\<close>

theorem CompareVersions_asymmetric:
  "x \<noteq> y \<Longrightarrow> \<not> (CompareVersions x y \<and> CompareVersions y x)"
  using compare_ref_asym by (auto simp: CompareVersions_eq_ref CompareVersions_ref_def)

theorem CompareVersions_asymmetric_witness:
  "''21.0.6'' \<noteq> ''21.0.6_7'' \<and>
   \<not> (CompareVersions ''21.0.6'' ''21.0.6_7'' \<and> CompareVersions ''21.0.6_7'' ''21.0.6'')"
proof -
  have ne: "''21.0.6'' \<noteq> ''21.0.6_7''" by simp
  show ?thesis using ne CompareVersions_asymmetric [OF ne] by simp
qed

subsection \<open>ExtractMajor\<close>

lemma major_patterns_leading: "major_patterns [CHR ''.'', CHR ''u''] s = leading_int s"
  by (auto simp: major_submatch_def leading_int_def Let_def)

lemma strip_prefix_TrimLeft:
  "TrimLeft s ''abcdefghijklmnopqrstuvwxyzABCDEFGHIJKLMNOPQRSTUVWXYZ-_'' = strip_prefix s"
proof -
  have "(\<lambda>c. c \<in> set ''abcdefghijklmnopqrstuvwxyzABCDEFGHIJKLMNOPQRSTUVWXYZ-_'') =
        is_prefix_char"
    by (rule ext) (simp add: is_prefix_char_def)
  then show ?thesis by (simp add: TrimLeft_def strip_prefix_def)
qed

lemma ExtractMajor_fallback:
  "leading_int s = None \<Longrightarrow> ExtractMajor s = major_after_strip (strip_prefix s)"
proof (cases "s = []")
  case True
  then show ?thesis
    by (simp add: ExtractMajor_def major_after_strip_def strip_prefix_def)
next
  case False
  assume "leading_int s = None"
  with False show ?thesis
    unfolding ExtractMajor_def major_patterns_leading strip_prefix_TrimLeft
    by (simp add: major_after_strip_def Contains_single Split_not_Nil hd_Split
        takeWhile_twice Let_def)
qed

lemma leading_int_not_Nil: "leading_int s = Some d \<Longrightarrow> s \<noteq> []"
  by (auto simp: leading_int_def)

lemma ExtractMajor_leading: "leading_int s = Some d \<Longrightarrow> ExtractMajor s = d"
  using leading_int_not_Nil [of s d]
  unfolding ExtractMajor_def major_patterns_leading by simp

lemma leading_int_shape:
  assumes "leading_int s = Some d"
  shows "d \<noteq> [] \<and> list_all is_digit d \<and>
         (\<exists>c rest. s = d @ c # rest \<and> (c = CHR ''.'' \<or> c = CHR ''u''))"
proof -
  let ?r = "dropWhile is_digit s"
  from assms have d: "d = takeWhile is_digit s" and ne: "d \<noteq> []" and r: "?r \<noteq> []"
    and h: "hd ?r = CHR ''.'' \<or> hd ?r = CHR ''u''"
    by (auto simp: leading_int_def Let_def split: if_splits)
  have "s = d @ ?r" by (simp add: d)
  with r have "s = d @ hd ?r # tl ?r" by simp
  moreover have "list_all is_digit d"
    unfolding d list_all_iff using set_takeWhileD by fastforce
  ultimately show ?thesis using ne h by blast
qed

lemma takeWhile_digits_sep:
  "list_all is_digit d \<Longrightarrow> c = CHR ''.'' \<or> c = CHR ''u'' \<Longrightarrow>
   takeWhile (\<lambda>x. x \<noteq> CHR ''.'' \<and> x \<noteq> CHR ''u'') (d @ c # rest) = d"
  by (induction d) (auto dest: digit_not_special)

lemma major_after_strip_leading:
  assumes "leading_int r = Some d" "digits_val d < 2 ^ 63"
  shows "major_after_strip r = d"
proof -
  from leading_int_shape [OF assms(1)] obtain c rest where
    ne: "d \<noteq> []" and dg: "list_all is_digit d" and r: "r = d @ c # rest"
    and c: "c = CHR ''.'' \<or> c = CHR ''u''" by blast
  have "CHR ''.'' \<in> set r \<or> CHR ''u'' \<in> set r" using r c by auto
  moreover have "takeWhile (\<lambda>x. x \<noteq> CHR ''.'' \<and> x \<noteq> CHR ''u'') r = d"
    unfolding r by (rule takeWhile_digits_sep [OF dg c])
  ultimately show ?thesis
    using Atoi_digits [OF ne dg assms(2)] by (auto simp: major_after_strip_def Let_def)
qed

lemma strip_prefix_leading: "leading_int s = Some d \<Longrightarrow> strip_prefix s = s"
proof -
  assume a: "leading_int s = Some d"
  from leading_int_shape [OF a] obtain c rest where
    ne: "d \<noteq> []" and dg: "list_all is_digit d" and r: "s = d @ c # rest" by blast
  then have "is_digit (hd s)" by (cases d) auto
  moreover have "s \<noteq> []" using r by simp
  ultimately show ?thesis
    by (cases s) (auto simp: strip_prefix_def dest: digit_not_prefix_char)
qed

lemma ExtractMajor_no_separator:
  assumes "CHR ''.'' \<notin> set (strip_prefix s)" "CHR ''u'' \<notin> set (strip_prefix s)"
  shows "ExtractMajor s = []"
proof (cases "leading_int s")
  case None
  then show ?thesis using assms by (simp add: ExtractMajor_fallback major_after_strip_def)
next
  case (Some d)
  from leading_int_shape [OF Some] have "CHR ''.'' \<in> set s \<or> CHR ''u'' \<in> set s" by auto
  with assms strip_prefix_leading [OF Some] show ?thesis by simp
qed

text \<open>
  Claim C5, as stated, reads the fallback of \<open>ExtractMajor\<close> as a retry of the two
  separator checks on the stripped remainder. The code instead cuts the remainder at
  its first \<open>.\<close> and first \<open>u\<close> and asks \<open>strconv.Atoi\<close> whether the piece is a number,
  and \<open>Atoi\<close> rejects a digit run that does not fit a 64-bit \<open>int\<close>: for
  \<open>"jdk-99999999999999999999.0"\<close> the remainder starts with digits followed by \<open>.\<close>,
  yet \<open>ExtractMajor\<close> returns the empty string.
\<close>

theorem ExtractMajor_retry_counterexample:
  "leading_int ''jdk-99999999999999999999.0'' = None \<and>
   leading_int (strip_prefix ''jdk-99999999999999999999.0'') = Some ''99999999999999999999'' \<and>
   ExtractMajor_retry ''jdk-99999999999999999999.0'' = ''99999999999999999999'' \<and>
   ExtractMajor ''jdk-99999999999999999999.0'' = []"
  by code_simp

text \<open>
  Claim C5, amended. For every input string: when the input starts with digits
  followed by \<open>.\<close> or by \<open>u\<close>, \<open>ExtractMajor\<close> returns that leading decimal integer.
  Otherwise it strips the leading alphabetic, \<open>-\<close> and \<open>_\<close> prefix and returns the text
  of the remainder before its first \<open>.\<close> and first \<open>u\<close> if the remainder contains a
  \<open>.\<close> or a \<open>u\<close> and \<open>strconv.Atoi\<close> accepts that text, and the empty string if not; so
  a remainder that starts with digits followed by \<open>.\<close> or by \<open>u\<close> yields those digits
  whenever they denote a number below \<open>2^63\<close>. Whenever the stripped remainder
  contains neither \<open>.\<close> nor \<open>u\<close> the result is the empty string. Concretely
  \<open>ExtractMajor("8u442b06") = "8"\<close>, \<open>ExtractMajor("21") = ""\<close> and
  \<open>ExtractMajor("") = ""\<close>.
\<close>

theorem ExtractMajor_characterised:
  "(leading_int s = Some d \<longrightarrow> ExtractMajor s = d) \<and>
   (leading_int s = None \<longrightarrow> ExtractMajor s = major_after_strip (strip_prefix s)) \<and>
   (leading_int s = None \<longrightarrow> leading_int (strip_prefix s) = Some d \<longrightarrow>
      digits_val d < 2 ^ 63 \<longrightarrow> ExtractMajor s = d) \<and>
   (CHR ''.'' \<notin> set (strip_prefix s) \<and> CHR ''u'' \<notin> set (strip_prefix s) \<longrightarrow>
      ExtractMajor s = []) \<and>
   ExtractMajor ''8u442b06'' = ''8'' \<and> ExtractMajor ''21'' = [] \<and> ExtractMajor [] = []"
proof -
  have e1: "ExtractMajor ''8u442b06'' = ''8''" by code_simp
  have e2: "ExtractMajor ''21'' = []" by code_simp
  have e3: "ExtractMajor [] = []" by (simp add: ExtractMajor_def)
  show ?thesis
    using ExtractMajor_leading ExtractMajor_fallback major_after_strip_leading
      ExtractMajor_no_separator e1 e2 e3 by presburger
qed

theorem ExtractMajor_characterised_witness:
  "leading_int ''jdk-17.0.11'' = None \<and>
   leading_int (strip_prefix ''jdk-17.0.11'') = Some ''17'' \<and>
   digits_val ''17'' < 2 ^ 63 \<and>
   ExtractMajor ''jdk-17.0.11'' = ''17'' \<and>
   leading_int ''11.0.26_4'' = Some ''11'' \<and> ExtractMajor ''11.0.26_4'' = ''11'' \<and>
   CHR ''.'' \<notin> set (strip_prefix ''jdk21'') \<and> CHR ''u'' \<notin> set (strip_prefix ''jdk21'') \<and>
   ExtractMajor ''jdk21'' = []"
proof -
  have a: "leading_int ''jdk-17.0.11'' = None" by code_simp
  have b: "leading_int (strip_prefix ''jdk-17.0.11'') = Some ''17''" by code_simp
  have c: "digits_val ''17'' < 2 ^ 63" by code_simp
  have d: "leading_int ''11.0.26_4'' = Some ''11''" by code_simp
  have e: "CHR ''.'' \<notin> set (strip_prefix ''jdk21'')" by code_simp
  have f: "CHR ''u'' \<notin> set (strip_prefix ''jdk21'')" by code_simp
  have w1: "ExtractMajor ''jdk-17.0.11'' = ''17''"
    using a b c ExtractMajor_characterised [of "''jdk-17.0.11''" "''17''"] by blast
  have w2: "ExtractMajor ''11.0.26_4'' = ''11''"
    using d ExtractMajor_characterised [of "''11.0.26_4''" "''11''"] by blast
  have w3: "ExtractMajor ''jdk21'' = []"
    using e f ExtractMajor_characterised [of "''jdk21''" "''17''"] by blast
  show ?thesis
    using a b c d e f w1 w2 w3 by blast
qed


section \<open>The extractor: proofs\<close>

lemma try_regexes_first:
  "try_regexes lib pattern rs path = first_capture lib path (map (Pair pattern) rs)"
  by (induction rs) (auto simp: capture_def Let_def split: option.splits)

lemma first_capture_append:
  "first_capture lib path (xs @ ys) =
   (case first_capture lib path xs of
      Some r \<Rightarrow> Some r
    | None \<Rightarrow> first_capture lib path ys)"
  by (induction xs) (auto split: option.splits)

lemma extract_loop_first:
  "extract_loop lib ps path = first_capture lib path (candidates ps)"
  by (induction ps)
     (auto simp: candidates_def try_regexes_first first_capture_append split: option.splits)

lemma extract_loop_by_type_filter:
  "extract_loop_by_type lib ps path sdkType =
   extract_loop lib
     (filter (\<lambda>pattern. Pattern.Type pattern = sdkType \<or> Pattern.Type pattern = ''*'') ps) path"
  by (induction ps) (auto split: option.splits)

lemma extract_loop_append:
  "extract_loop lib (xs @ ys) path =
   (case extract_loop lib xs path of
      Some r \<Rightarrow> Some r
    | None \<Rightarrow> extract_loop lib ys path)"
  by (induction xs) (auto split: option.splits)

lemma extract_loop_none:
  "(\<forall>p \<in> set ps. pattern_match lib path p = None) \<Longrightarrow> extract_loop lib ps path = None"
  by (induction ps) (auto simp: pattern_match_def try_regexes_first)

lemma extract_loop_earliest:
  assumes "\<forall>p \<in> set pre. pattern_match lib path p = None"
    and "pattern_match lib path P1 = Some r"
  shows "extract_loop lib (pre @ P1 # rest) path = Some r"
  using assms extract_loop_none [of pre lib path]
  by (simp add: extract_loop_append pattern_match_def try_regexes_first)

lemma extract_loop_by_type_earliest:
  assumes "\<forall>p \<in> set pre. Pattern.Type p = sdkType \<or> Pattern.Type p = ''*'' \<longrightarrow>
             pattern_match lib path p = None"
    and "Pattern.Type P1 = sdkType \<or> Pattern.Type P1 = ''*''"
    and "pattern_match lib path P1 = Some r"
  shows "extract_loop_by_type lib (pre @ P1 # rest) path sdkType = Some r"
proof -
  let ?ok = "\<lambda>pattern. Pattern.Type pattern = sdkType \<or> Pattern.Type pattern = ''*''"
  have "filter ?ok (pre @ P1 # rest) = filter ?ok pre @ P1 # filter ?ok rest"
    using assms(2) by simp
  moreover have "\<forall>p \<in> set (filter ?ok pre). pattern_match lib path p = None"
    using assms(1) by auto
  ultimately show ?thesis
    using extract_loop_earliest [OF _ assms(3), of "filter ?ok pre" "filter ?ok rest"]
    by (simp only: extract_loop_by_type_filter)
qed

text \<open>
  Claim C1, as stated, lets the first regex with a non-empty first capture group win.
  The code tests \<open>len(matches) > 1\<close>, which holds as soon as the regex matches and has
  a capture group, whatever the group captured. For the table of \<open>generic_pattern\<close>
  and \<open>dir_pattern\<close> and the path \<open>/17/jdk\<close>, the regex \<open>jdk(.*)\<close> matches with an empty
  capture, and both functions return the empty version with the name \<open>generic\<close>; the
  first regex with a non-empty capture is \<open>/(.+)/jdk\<close> of \<open>dir\<close>, with the version
  \<open>17\<close>.
\<close>

theorem ExtractVersion_nonempty_counterexample:
  "ExtractVersion rx_lib \<lparr>patterns = [generic_pattern, dir_pattern]\<rparr> ''/17/jdk'' =
     Inr ([], ''generic'') \<and>
   ExtractVersionByType rx_lib \<lparr>patterns = [generic_pattern, dir_pattern]\<rparr> ''/17/jdk'' ''jdk'' =
     Inr ([], ''generic'') \<and>
   first_nonempty_capture rx_lib ''/17/jdk'' (candidates [generic_pattern, dir_pattern]) =
     Some (''17'', ''dir'')"
  by code_simp

text \<open>
  Claim C1, amended. For every loaded pattern table and every path string,
  \<open>ExtractVersion\<close> (and \<open>ExtractVersionByType\<close> on the PatternSets that pass its type
  filter) returns the (version, patternName) pair produced by the first regex,
  iterating PatternSets in stored table order and the regexes of each PatternSet in
  stored list order, that compiles, matches the path and has a capture group; the
  version is the text of its first capture group, which may be empty. When no regex
  does, the call fails with its "no pattern matched" error. In particular the result
  is the match of the earliest PatternSet that matches, whatever matches after it.
\<close>

theorem ExtractVersion_first_match:
  "ExtractVersion lib p path =
     (case first_capture lib path (candidates (patterns p)) of
        Some r \<Rightarrow> Inr r
      | None \<Rightarrow> Inl (''no pattern matched for path: '' @ path)) \<and>
   ExtractVersionByType lib p path sdkType =
     (case first_capture lib path (candidates (GetPatternsByType p sdkType)) of
        Some r \<Rightarrow> Inr r
      | None \<Rightarrow>
          Inl (''no pattern matched for path: '' @ path @ '' (type: '' @ sdkType @ '')'')) \<and>
   ((\<forall>q \<in> set pre. pattern_match lib path q = None) \<longrightarrow>
    pattern_match lib path P1 = Some r \<longrightarrow>
      ExtractVersion lib \<lparr>patterns = pre @ P1 # rest\<rparr> path = Inr r) \<and>
   ((\<forall>q \<in> set pre. Pattern.Type q = sdkType \<or> Pattern.Type q = ''*'' \<longrightarrow>
       pattern_match lib path q = None) \<longrightarrow>
    Pattern.Type P1 = sdkType \<or> Pattern.Type P1 = ''*'' \<longrightarrow>
    pattern_match lib path P1 = Some r \<longrightarrow>
      ExtractVersionByType lib \<lparr>patterns = pre @ P1 # rest\<rparr> path sdkType = Inr r)"
proof -
  have a: "ExtractVersion lib p path =
     (case first_capture lib path (candidates (patterns p)) of
        Some r \<Rightarrow> Inr r
      | None \<Rightarrow> Inl (''no pattern matched for path: '' @ path))"
    by (simp add: ExtractVersion_def extract_loop_first)
  have b: "ExtractVersionByType lib p path sdkType =
     (case first_capture lib path (candidates (GetPatternsByType p sdkType)) of
        Some r \<Rightarrow> Inr r
      | None \<Rightarrow>
          Inl (''no pattern matched for path: '' @ path @ '' (type: '' @ sdkType @ '')''))"
    by (simp add: ExtractVersionByType_def extract_loop_by_type_filter extract_loop_first
        GetPatternsByType_def)
  have c: "ExtractVersion lib \<lparr>patterns = pre @ P1 # rest\<rparr> path = Inr r"
    if "\<forall>q \<in> set pre. pattern_match lib path q = None" "pattern_match lib path P1 = Some r"
    using extract_loop_earliest [OF that] by (simp add: ExtractVersion_def)
  have d: "ExtractVersionByType lib \<lparr>patterns = pre @ P1 # rest\<rparr> path sdkType = Inr r"
    if "\<forall>q \<in> set pre. Pattern.Type q = sdkType \<or> Pattern.Type q = ''*'' \<longrightarrow>
          pattern_match lib path q = None"
      "Pattern.Type P1 = sdkType \<or> Pattern.Type P1 = ''*''"
      "pattern_match lib path P1 = Some r"
    using extract_loop_by_type_earliest [OF that] by (simp add: ExtractVersionByType_def)
  from a b c d show ?thesis by blast
qed

theorem ExtractVersion_first_match_witness:
  "pattern_match rx_lib ''/17/jdk'' temurin_pattern = None \<and>
   pattern_match rx_lib ''/17/jdk'' generic_pattern = Some ([], ''generic'') \<and>
   pattern_match rx_lib ''/17/jdk'' dir_pattern = Some (''17'', ''dir'') \<and>
   Pattern.Type generic_pattern = ''jdk'' \<and>
   ExtractVersion rx_lib \<lparr>patterns = [temurin_pattern] @ generic_pattern # [dir_pattern]\<rparr>
     ''/17/jdk'' = Inr ([], ''generic'') \<and>
   ExtractVersionByType rx_lib \<lparr>patterns = [temurin_pattern] @ generic_pattern # [dir_pattern]\<rparr>
     ''/17/jdk'' ''jdk'' = Inr ([], ''generic'')"
proof -
  have n: "pattern_match rx_lib ''/17/jdk'' temurin_pattern = None" by code_simp
  have h1: "\<forall>q \<in> set [temurin_pattern]. pattern_match rx_lib ''/17/jdk'' q = None"
    using n by simp
  have h2: "pattern_match rx_lib ''/17/jdk'' generic_pattern = Some ([], ''generic'')"
    by code_simp
  have h3: "\<forall>q \<in> set [temurin_pattern]. Pattern.Type q = ''jdk'' \<or> Pattern.Type q = ''*'' \<longrightarrow>
      pattern_match rx_lib ''/17/jdk'' q = None"
    using n by simp
  have h4: "Pattern.Type generic_pattern = ''jdk''"
    by (simp add: generic_pattern_def)
  have h5: "pattern_match rx_lib ''/17/jdk'' dir_pattern = Some (''17'', ''dir'')"
    by code_simp
  note t = ExtractVersion_first_match [where lib = rx_lib and path = "''/17/jdk''"
      and sdkType = "''jdk''" and pre = "[temurin_pattern]" and ?P1.0 = generic_pattern
      and r = "([], ''generic'')" and rest = "[dir_pattern]"]
  from t h1 h2 have w1:
    "ExtractVersion rx_lib \<lparr>patterns = [temurin_pattern] @ generic_pattern # [dir_pattern]\<rparr>
       ''/17/jdk'' = Inr ([], ''generic'')"
    by blast
  from t h3 h4 h2 have w2:
    "ExtractVersionByType rx_lib \<lparr>patterns = [temurin_pattern] @ generic_pattern # [dir_pattern]\<rparr>
       ''/17/jdk'' ''jdk'' = Inr ([], ''generic'')"
    by blast
  from n h2 h4 h5 w1 w2 show ?thesis by blast
qed

subsection \<open>Regexes that fail to compile\<close>

lemma try_regexes_filter:
  "try_regexes lib pattern (filter (\<lambda>r. Compile lib r \<noteq> None) rs) path =
   try_regexes lib pattern rs path"
  by (induction rs) (auto simp: Let_def split: option.splits)

lemma try_regexes_name:
  "try_regexes lib (p\<lparr>Patterns := x\<rparr>) rs path = try_regexes lib p rs path"
  by (induction rs) (auto simp: Let_def split: option.splits)

lemma extract_loop_remove:
  "extract_loop lib (patterns (remove_malformed lib p)) path = extract_loop lib (patterns p) path"
proof -
  have "extract_loop lib
          (map (\<lambda>pattern. pattern\<lparr>Patterns :=
                  filter (\<lambda>r. Compile lib r \<noteq> None) (Patterns pattern)\<rparr>) ps) path
        = extract_loop lib ps path" for ps
    by (induction ps)
       (auto simp: try_regexes_name try_regexes_filter simp del: not_None_eq
          split: option.splits)
  then show ?thesis by (simp add: remove_malformed_def)
qed

lemma extract_loop_by_type_remove:
  "extract_loop_by_type lib (patterns (remove_malformed lib p)) path t =
   extract_loop_by_type lib (patterns p) path t"
proof -
  have "extract_loop_by_type lib
          (map (\<lambda>pattern. pattern\<lparr>Patterns :=
                  filter (\<lambda>r. Compile lib r \<noteq> None) (Patterns pattern)\<rparr>) ps) path t
        = extract_loop_by_type lib ps path t" for ps
    by (induction ps)
       (auto simp: try_regexes_name try_regexes_filter simp del: not_None_eq
          split: option.splits)
  then show ?thesis by (simp add: remove_malformed_def)
qed

lemma try_regexes_drop_bad:
  "Compile lib bad = None \<Longrightarrow>
   try_regexes lib p (rs1 @ bad # rs2) path = try_regexes lib p (rs1 @ rs2) path"
  by (induction rs1) (auto simp: Let_def split: option.splits)

lemma extract_loop_drop_bad:
  assumes "Compile lib bad = None"
  shows "extract_loop lib (pre @ P\<lparr>Patterns := rs1 @ bad # rs2\<rparr> # post) path =
         extract_loop lib (pre @ P\<lparr>Patterns := rs1 @ rs2\<rparr> # post) path"
  by (induction pre)
     (auto simp: try_regexes_name try_regexes_drop_bad [OF assms] split: option.splits)

lemma extract_loop_by_type_drop_bad:
  assumes "Compile lib bad = None"
  shows "extract_loop_by_type lib (pre @ P\<lparr>Patterns := rs1 @ bad # rs2\<rparr> # post) path t =
         extract_loop_by_type lib (pre @ P\<lparr>Patterns := rs1 @ rs2\<rparr> # post) path t"
  by (induction pre)
     (auto simp: try_regexes_name try_regexes_drop_bad [OF assms] split: option.splits)

lemma capture_name: "capture lib path (P\<lparr>Patterns := x\<rparr>, r) = capture lib path (P, r)"
  by (simp add: capture_def Let_def split: option.splits)

lemma first_capture_name:
  "first_capture lib path (map (Pair (P\<lparr>Patterns := x\<rparr>)) rs) =
   first_capture lib path (map (Pair P) rs)"
  by (induction rs) (simp_all add: capture_name split: option.splits)

lemma capture_bad: "Compile lib bad = None \<Longrightarrow> capture lib path (P, bad) = None"
  by (simp add: capture_def)

lemma pattern_match_past_bad:
  assumes "Compile lib bad = None" "first_capture lib path (map (Pair P) rs1) = None"
  shows "pattern_match lib path (P\<lparr>Patterns := rs1 @ bad # rs2\<rparr>) =
         first_capture lib path (map (Pair P) rs2)"
  using assms
  by (simp add: pattern_match_def first_capture_name first_capture_append capture_bad)

lemma ExtractVersion_earliest:
  assumes "\<forall>q \<in> set pre. pattern_match lib path q = None" "pattern_match lib path P1 = Some r"
  shows "ExtractVersion lib \<lparr>patterns = pre @ P1 # rest\<rparr> path = Inr r"
  using extract_loop_earliest [OF assms] by (simp add: ExtractVersion_def)

lemma ExtractVersionByType_earliest:
  assumes "\<forall>q \<in> set pre. pattern_match lib path q = None"
    "Pattern.Type P1 = sdkType \<or> Pattern.Type P1 = ''*''"
    "pattern_match lib path P1 = Some r"
  shows "ExtractVersionByType lib \<lparr>patterns = pre @ P1 # rest\<rparr> path sdkType = Inr r"
proof -
  from assms(1) have "\<forall>p \<in> set pre. Pattern.Type p = sdkType \<or> Pattern.Type p = ''*'' \<longrightarrow>
             pattern_match lib path p = None" by blast
  from extract_loop_by_type_earliest [OF this assms(2,3)] show ?thesis
    by (simp add: ExtractVersionByType_def)
qed

lemma later_regex_tried:
  assumes "Compile lib bad = None" "\<forall>q \<in> set pre. pattern_match lib path q = None"
    "first_capture lib path (map (Pair P) rs1) = None"
    "first_capture lib path (map (Pair P) rs2) = Some r"
  shows "ExtractVersion lib \<lparr>patterns = pre @ P\<lparr>Patterns := rs1 @ bad # rs2\<rparr> # post\<rparr> path =
           Inr r \<and>
         (Pattern.Type P = sdkType \<or> Pattern.Type P = ''*'' \<longrightarrow>
          ExtractVersionByType lib \<lparr>patterns = pre @ P\<lparr>Patterns := rs1 @ bad # rs2\<rparr> # post\<rparr>
            path sdkType = Inr r)"
proof -
  have m: "pattern_match lib path (P\<lparr>Patterns := rs1 @ bad # rs2\<rparr>) = Some r"
    using pattern_match_past_bad [OF assms(1,3)] assms(4) by simp
  have "ExtractVersion lib \<lparr>patterns = pre @ P\<lparr>Patterns := rs1 @ bad # rs2\<rparr> # post\<rparr> path =
          Inr r"
    by (rule ExtractVersion_earliest [OF assms(2) m])
  moreover have
    "ExtractVersionByType lib \<lparr>patterns = pre @ P\<lparr>Patterns := rs1 @ bad # rs2\<rparr> # post\<rparr>
        path sdkType = Inr r" if "Pattern.Type P = sdkType \<or> Pattern.Type P = ''*''"
    using ExtractVersionByType_earliest [OF assms(2) _ m] that by simp
  ultimately show ?thesis by blast
qed

lemma later_pattern_tried:
  assumes "Compile lib bad = None" "\<forall>q \<in> set pre. pattern_match lib path q = None"
    "first_capture lib path (map (Pair P) rs1) = None"
    "first_capture lib path (map (Pair P) rs2) = None"
    "pattern_match lib path Q = Some r"
  shows "ExtractVersion lib
           \<lparr>patterns = pre @ P\<lparr>Patterns := rs1 @ bad # rs2\<rparr> # Q # post\<rparr> path = Inr r \<and>
         (Pattern.Type Q = sdkType \<or> Pattern.Type Q = ''*'' \<longrightarrow>
          ExtractVersionByType lib
            \<lparr>patterns = pre @ P\<lparr>Patterns := rs1 @ bad # rs2\<rparr> # Q # post\<rparr> path sdkType =
            Inr r)"
proof -
  let ?P = "P\<lparr>Patterns := rs1 @ bad # rs2\<rparr>"
  have m: "pattern_match lib path ?P = None"
    using pattern_match_past_bad [OF assms(1,3)] assms(4) by simp
  with assms(2) have pre: "\<forall>q \<in> set (pre @ [?P]). pattern_match lib path q = None" by simp
  have "ExtractVersion lib \<lparr>patterns = pre @ ?P # Q # post\<rparr> path = Inr r"
    using ExtractVersion_earliest [OF pre assms(5), of post] by simp
  moreover have
    "ExtractVersionByType lib \<lparr>patterns = pre @ ?P # Q # post\<rparr> path sdkType = Inr r"
    if "Pattern.Type Q = sdkType \<or> Pattern.Type Q = ''*''"
    using ExtractVersionByType_earliest [OF pre that assms(5), of post] by simp
  ultimately show ?thesis by blast
qed

lemma ExtractVersion_cleaned:
  "ExtractVersion lib p path =
     (case first_capture lib path (candidates (patterns (remove_malformed lib p))) of
        Some r \<Rightarrow> Inr r
      | None \<Rightarrow> Inl (''no pattern matched for path: '' @ path))"
proof -
  have "extract_loop lib (patterns p) path =
        first_capture lib path (candidates (patterns (remove_malformed lib p)))"
    using extract_loop_remove [of lib p path]
      extract_loop_first [of lib "patterns (remove_malformed lib p)" path] by simp
  then show ?thesis by (simp add: ExtractVersion_def)
qed

lemma ExtractVersionByType_cleaned:
  "ExtractVersionByType lib p path sdkType =
     (case first_capture lib path
             (candidates (GetPatternsByType (remove_malformed lib p) sdkType)) of
        Some r \<Rightarrow> Inr r
      | None \<Rightarrow>
          Inl (''no pattern matched for path: '' @ path @ '' (type: '' @ sdkType @ '')''))"
proof -
  have "extract_loop_by_type lib (patterns p) path sdkType =
        first_capture lib path (candidates (GetPatternsByType (remove_malformed lib p) sdkType))"
    using extract_loop_by_type_remove [of lib p path sdkType]
      extract_loop_by_type_filter [of lib "patterns (remove_malformed lib p)" path sdkType]
      extract_loop_first [of lib "GetPatternsByType (remove_malformed lib p) sdkType" path]
    by (simp add: GetPatternsByType_def)
  then show ?thesis by (simp add: ExtractVersionByType_def)
qed

text \<open>
  Claim C9. For every pattern table, \<open>ExtractVersion\<close> and \<open>ExtractVersionByType\<close>
  return what they return on the table without the regexes that fail to compile,
  which is the first capture over the (PatternSet, regex) pairs of that table, taken
  in order (for \<open>ExtractVersionByType\<close>, of its PatternSets of the requested type); and
  for a table in which the regex \<open>bad\<close> of one PatternSet fails to compile, they return
  what they return on the table without \<open>bad\<close>. A malformed regex is skipped and the
  search goes on: when nothing before \<open>bad\<close> yields a capture, a later regex of the
  same PatternSet that yields one gives the result of both functions, and when the
  PatternSet of \<open>bad\<close> yields nothing, the next PatternSet does if it matches. So the
  malformed regex alone never makes the call fail.
\<close>

theorem malformed_regex_skipped:
  "ExtractVersion lib p path = ExtractVersion lib (remove_malformed lib p) path \<and>
   ExtractVersionByType lib p path sdkType =
     ExtractVersionByType lib (remove_malformed lib p) path sdkType \<and>
   ExtractVersion lib p path =
     (case first_capture lib path (candidates (patterns (remove_malformed lib p))) of
        Some r \<Rightarrow> Inr r
      | None \<Rightarrow> Inl (''no pattern matched for path: '' @ path)) \<and>
   ExtractVersionByType lib p path sdkType =
     (case first_capture lib path
             (candidates (GetPatternsByType (remove_malformed lib p) sdkType)) of
        Some r \<Rightarrow> Inr r
      | None \<Rightarrow>
          Inl (''no pattern matched for path: '' @ path @ '' (type: '' @ sdkType @ '')'')) \<and>
   (Compile lib bad = None \<longrightarrow>
      ExtractVersion lib \<lparr>patterns = pre @ P\<lparr>Patterns := rs1 @ bad # rs2\<rparr> # post\<rparr> path =
      ExtractVersion lib \<lparr>patterns = pre @ P\<lparr>Patterns := rs1 @ rs2\<rparr> # post\<rparr> path \<and>
      ExtractVersionByType lib
        \<lparr>patterns = pre @ P\<lparr>Patterns := rs1 @ bad # rs2\<rparr> # post\<rparr> path sdkType =
      ExtractVersionByType lib
        \<lparr>patterns = pre @ P\<lparr>Patterns := rs1 @ rs2\<rparr> # post\<rparr> path sdkType) \<and>
   (Compile lib bad = None \<longrightarrow>
    (\<forall>q \<in> set pre. pattern_match lib path q = None) \<longrightarrow>
    first_capture lib path (map (Pair P) rs1) = None \<longrightarrow>
    first_capture lib path (map (Pair P) rs2) = Some v \<longrightarrow>
      ExtractVersion lib \<lparr>patterns = pre @ P\<lparr>Patterns := rs1 @ bad # rs2\<rparr> # post\<rparr> path =
        Inr v \<and>
      (Pattern.Type P = sdkType \<or> Pattern.Type P = ''*'' \<longrightarrow>
       ExtractVersionByType lib \<lparr>patterns = pre @ P\<lparr>Patterns := rs1 @ bad # rs2\<rparr> # post\<rparr>
         path sdkType = Inr v)) \<and>
   (Compile lib bad = None \<longrightarrow>
    (\<forall>q \<in> set pre. pattern_match lib path q = None) \<longrightarrow>
    first_capture lib path (map (Pair P) rs1) = None \<longrightarrow>
    first_capture lib path (map (Pair P) rs2) = None \<longrightarrow>
    pattern_match lib path Q = Some v \<longrightarrow>
      ExtractVersion lib
        \<lparr>patterns = pre @ P\<lparr>Patterns := rs1 @ bad # rs2\<rparr> # Q # post\<rparr> path = Inr v \<and>
      (Pattern.Type Q = sdkType \<or> Pattern.Type Q = ''*'' \<longrightarrow>
       ExtractVersionByType lib
         \<lparr>patterns = pre @ P\<lparr>Patterns := rs1 @ bad # rs2\<rparr> # Q # post\<rparr> path sdkType =
         Inr v))"
proof -
  have a: "ExtractVersion lib p path = ExtractVersion lib (remove_malformed lib p) path \<and>
    ExtractVersionByType lib p path sdkType =
      ExtractVersionByType lib (remove_malformed lib p) path sdkType"
    by (simp add: ExtractVersion_def ExtractVersionByType_def extract_loop_remove
        extract_loop_by_type_remove)
  have b: "ExtractVersion lib \<lparr>patterns = pre @ P\<lparr>Patterns := rs1 @ bad # rs2\<rparr> # post\<rparr> path =
      ExtractVersion lib \<lparr>patterns = pre @ P\<lparr>Patterns := rs1 @ rs2\<rparr> # post\<rparr> path \<and>
      ExtractVersionByType lib
        \<lparr>patterns = pre @ P\<lparr>Patterns := rs1 @ bad # rs2\<rparr> # post\<rparr> path sdkType =
      ExtractVersionByType lib
        \<lparr>patterns = pre @ P\<lparr>Patterns := rs1 @ rs2\<rparr> # post\<rparr> path sdkType"
    if "Compile lib bad = None"
    using that
    by (simp add: ExtractVersion_def ExtractVersionByType_def extract_loop_drop_bad
        extract_loop_by_type_drop_bad)
  from a b ExtractVersion_cleaned [of lib p path]
    ExtractVersionByType_cleaned [of lib p path sdkType]
    later_regex_tried [of lib bad pre path P rs1 rs2 v post sdkType]
    later_pattern_tried [of lib bad pre path P rs1 rs2 Q v post sdkType]
  show ?thesis by blast
qed

theorem malformed_regex_skipped_witness:
  "Compile rx_lib ''jdk-(.*'' = None \<and>
   ExtractVersion rx_lib
     \<lparr>patterns = [] @ temurin_pattern\<lparr>Patterns := [] @ ''jdk-(.*'' # [dotted_build_regex]\<rparr> # []\<rparr>
     ''/jdk/t/jdk-11.0.24_8-linux.tar.gz'' = Inr (''11.0.24_8'', ''t'') \<and>
   ExtractVersionByType rx_lib
     \<lparr>patterns = [] @ temurin_pattern\<lparr>Patterns := [] @ ''jdk-(.*'' # [dotted_build_regex]\<rparr> # []\<rparr>
     ''/jdk/t/jdk-11.0.24_8-linux.tar.gz'' ''jdk'' = Inr (''11.0.24_8'', ''t'') \<and>
   ExtractVersion rx_lib
     \<lparr>patterns = [] @ dir_pattern\<lparr>Patterns := [] @ ''jdk-(.*'' # []\<rparr> # temurin_pattern # []\<rparr>
     ''/jdk/t/jdk-11.0.24_8-linux.tar.gz'' = Inr (''11.0.24_8'', ''t'') \<and>
   ExtractVersionByType rx_lib
     \<lparr>patterns = [] @ dir_pattern\<lparr>Patterns := [] @ ''jdk-(.*'' # []\<rparr> # temurin_pattern # []\<rparr>
     ''/jdk/t/jdk-11.0.24_8-linux.tar.gz'' ''jdk'' = Inr (''11.0.24_8'', ''t'')"
proof -
  let ?path = "''/jdk/t/jdk-11.0.24_8-linux.tar.gz''"
  let ?v = "(''11.0.24_8'', ''t'')"
  have h: "Compile rx_lib ''jdk-(.*'' = None" by code_simp
  have e: "\<forall>q \<in> set ([] :: Pattern list). pattern_match rx_lib ?path q = None" by simp
  have n1: "first_capture rx_lib ?path (map (Pair temurin_pattern) []) = None" by simp
  have n2: "first_capture rx_lib ?path (map (Pair dir_pattern) []) = None" by simp
  have s: "first_capture rx_lib ?path (map (Pair temurin_pattern) [dotted_build_regex]) = Some ?v"
    by code_simp
  have m: "pattern_match rx_lib ?path temurin_pattern = Some ?v" by code_simp
  have t: "Pattern.Type temurin_pattern = ''jdk'' \<or> Pattern.Type temurin_pattern = ''*''"
    by (simp add: temurin_pattern_def)
  note same = malformed_regex_skipped [where lib = rx_lib and path = ?path
      and bad = "''jdk-(.*''" and pre = "[]" and P = temurin_pattern and ?rs1.0 = "[]"
      and ?rs2.0 = "[dotted_build_regex]" and post = "[]" and v = ?v and sdkType = "''jdk''"]
  note later = malformed_regex_skipped [where lib = rx_lib and path = ?path
      and bad = "''jdk-(.*''" and pre = "[]" and P = dir_pattern and ?rs1.0 = "[]"
      and ?rs2.0 = "[]" and Q = temurin_pattern and post = "[]" and v = ?v
      and sdkType = "''jdk''"]
  from same h e n1 s t have w1:
    "ExtractVersion rx_lib
       \<lparr>patterns = [] @ temurin_pattern\<lparr>Patterns := [] @ ''jdk-(.*'' # [dotted_build_regex]\<rparr> # []\<rparr>
       ?path = Inr ?v"
    "ExtractVersionByType rx_lib
       \<lparr>patterns = [] @ temurin_pattern\<lparr>Patterns := [] @ ''jdk-(.*'' # [dotted_build_regex]\<rparr> # []\<rparr>
       ?path ''jdk'' = Inr ?v"
    by blast+
  from later h e n2 m t have w2:
    "ExtractVersion rx_lib
       \<lparr>patterns = [] @ dir_pattern\<lparr>Patterns := [] @ ''jdk-(.*'' # []\<rparr> # temurin_pattern # []\<rparr>
       ?path = Inr ?v"
    "ExtractVersionByType rx_lib
       \<lparr>patterns = [] @ dir_pattern\<lparr>Patterns := [] @ ''jdk-(.*'' # []\<rparr> # temurin_pattern # []\<rparr>
       ?path ''jdk'' = Inr ?v"
    by blast+
  from h w1 w2 show ?thesis by blast
qed

section \<open>The resolver: proofs\<close>

subsection \<open>The loop over the items\<close>

lemma process_item_version:
  "process_item lib c repo item st =
     (case item_version lib c repo item of
        None \<Rightarrow> st\<lparr>ignoredFiles := ignoredFiles st @ [NexusAsset.Path item]\<rparr>
      | Some v \<Rightarrow>
          if seen (seenVersions st) v then st
          else st\<lparr>seenVersions := (seenVersions st)(v \<mapsto> True),
                  sdkAssets := sdkAssets st @
                    [\<lparr>Version = v, DownloadUrl = NexusAsset.DownloadUrl item,
                      Filename = v, Size = 0\<rparr>]\<rparr>)"
  by (auto simp: process_item_def item_version_def Let_def split: sum.splits prod.splits)

lemma process_items_snoc:
  "process_items lib c repo (items @ [item]) st =
   process_item lib c repo item (process_items lib c repo items st)"
  by (induction items arbitrary: st) auto

lemma find_snoc:
  "List.find P (xs @ [x]) =
   (case List.find P xs of Some y \<Rightarrow> Some y | None \<Rightarrow> if P x then Some x else None)"
  by (induction xs) auto

lemma items_inv_init: "items_inv lib c repo [] no_items"
  by (simp add: items_inv_def no_items_def seen_def first_item_def)

lemma items_inv_step:
  assumes "items_inv lib c repo items st"
  shows "items_inv lib c repo (items @ [item]) (process_item lib c repo item st)"
proof (cases "item_version lib c repo item")
  case None
  with assms show ?thesis
    unfolding items_inv_def process_item_version first_item_def find_snoc
    by (auto split: option.splits)
next
  case (Some v)
  show ?thesis
  proof (cases "seen (seenVersions st) v")
    case True
    with Some assms show ?thesis
      unfolding items_inv_def process_item_version first_item_def find_snoc
      by (auto split: option.splits)
  next
    case False
    from False assms have notin: "v \<notin> Version ` set (sdkAssets st)"
      by (simp add: items_inv_def)
    have nofind: "List.find (\<lambda>it. item_version lib c repo it = Some v) items = None"
      using assms notin unfolding items_inv_def by (auto simp: find_None_iff)
    from Some False assms notin nofind show ?thesis
      unfolding items_inv_def process_item_version first_item_def find_snoc
      by (auto simp: seen_def split: option.splits)
  qed
qed

lemma items_inv_process:
  "items_inv lib c repo items (process_items lib c repo items no_items)"
proof (induction items rule: rev_induct)
  case Nil
  then show ?case by (simp add: items_inv_init)
next
  case (snoc x xs)
  then show ?case by (simp add: process_items_snoc items_inv_step)
qed

subsection \<open>Filtering and sorting\<close>

lemma set_insert_desc: "set (insert_desc a xs) = insert a (set xs)"
  by (induction xs) auto

lemma set_sort_desc: "set (sort_desc xs) = set xs"
  by (induction xs) (simp_all add: sort_desc_def set_insert_desc)

lemma distinct_insert_desc:
  "distinct (map Version (insert_desc a xs)) =
   (Version a \<notin> Version ` set xs \<and> distinct (map Version xs))"
  by (induction xs) (auto simp: set_insert_desc)

lemma distinct_sort_desc:
  "distinct (map Version (sort_desc xs)) = distinct (map Version xs)"
  by (induction xs)
     (simp_all add: sort_desc_def distinct_insert_desc set_sort_desc [unfolded sort_desc_def])

lemma byte_inj: "byte x = byte y \<Longrightarrow> x = y"
  by (simp add: byte_def)

lemma str_less_trans: "str_less a b \<Longrightarrow> str_less b c \<Longrightarrow> str_less a c"
proof (induction a b arbitrary: c rule: str_less.induct)
  case (4 x xs y ys)
  then show ?case by (cases c) (auto dest: byte_inj)
qed (auto elim: str_less.elims)

lemma str_less_total: "a \<noteq> b \<Longrightarrow> str_less a b \<or> str_less b a"
proof (induction a b rule: str_less.induct)
  case (4 x xs y ys)
  then show ?case using byte_inj [of x y] by (cases "byte x < byte y") auto
qed auto

lemma newer_asym: "newer a b \<Longrightarrow> \<not> newer b a"
  by (auto simp: newer_def dest: str_less_asym)

lemma sorted_insert_desc:
  assumes "sorted_wrt newer bs" "Version a \<notin> Version ` set bs"
  shows "sorted_wrt newer (insert_desc a bs)"
  using assms
proof (induction bs)
  case Nil
  then show ?case by simp
next
  case (Cons b bs)
  show ?case
  proof (cases "str_less (Version b) (Version a)")
    case True
    with Cons.prems show ?thesis
      by (auto simp: newer_def intro: str_less_trans)
  next
    case False
    with Cons.prems str_less_total [of "Version a" "Version b"]
    have "newer b a" by (auto simp: newer_def)
    with False Cons show ?thesis by (auto simp: set_insert_desc)
  qed
qed

lemma sorted_sort_desc:
  "distinct (map Version xs) \<Longrightarrow> sorted_wrt newer (sort_desc xs)"
proof (induction xs)
  case Nil
  then show ?case by (simp add: sort_desc_def)
next
  case (Cons a xs)
  then have "sorted_wrt newer (sort_desc xs)" by simp
  moreover from Cons.prems have "Version a \<notin> Version ` set (sort_desc xs)"
    by (simp add: set_sort_desc)
  ultimately have "sorted_wrt newer (insert_desc a (sort_desc xs))"
    by (rule sorted_insert_desc)
  then show ?case by (simp add: sort_desc_def)
qed

lemma sorted_newer_unique:
  "sorted_wrt newer xs \<Longrightarrow> sorted_wrt newer ys \<Longrightarrow> set xs = set ys \<Longrightarrow> xs = ys"
proof (induction xs arbitrary: ys)
  case Nil
  then show ?case by simp
next
  case (Cons x xs)
  then obtain y ys' where ys: "ys = y # ys'" by (cases ys) auto
  have xy: "x = y"
  proof (rule ccontr)
    assume ne: "x \<noteq> y"
    with Cons.prems ys have "x \<in> set ys'" "y \<in> set xs" by auto
    with Cons.prems ys have "newer y x" "newer x y" by auto
    then show False using newer_asym by blast
  qed
  have nx: "x \<notin> set xs" using Cons.prems(1) newer_asym by auto
  have ny: "y \<notin> set ys'" using Cons.prems(2) ys newer_asym by auto
  from Cons.prems(3) ys xy nx ny have "set xs = set ys'" by auto
  with Cons ys xy show ?case by auto
qed

text \<open>
  Whatever order \<open>sort.Slice\<close> leaves the assets in, if it is sorted by \<open>less\<close> it is the
  order of \<open>sort_desc\<close>.
\<close>

lemma sort_desc_unique:
  assumes "distinct (map Version xs)" "set ys = set xs" "sorted_wrt newer ys"
  shows "ys = sort_desc xs"
  using sorted_newer_unique [OF assms(3) sorted_sort_desc [OF assms(1)]] assms(2)
  by (simp add: set_sort_desc)

lemma set_filter_versions: "set (filter_versions vf xs) \<subseteq> set xs"
  by (auto simp: filter_versions_def)

lemma distinct_filter_versions:
  "distinct (map Version xs) \<Longrightarrow> distinct (map Version (filter_versions vf xs))"
  by (simp add: filter_versions_def distinct_map_filter)

lemma resolve_items_assets:
  assumes "resolve_items lib c repo vf allItems = Inr assets"
  shows "set assets \<subseteq> set (sdkAssets (process_items lib c repo allItems no_items)) \<and>
         distinct (map Version assets) \<and> assets \<noteq> []"
proof -
  let ?st = "process_items lib c repo allItems no_items"
  from assms have a: "assets = sort_desc (filter_versions vf (sdkAssets ?st))"
    and ne: "filter_versions vf (sdkAssets ?st) \<noteq> []"
    by (auto simp: resolve_items_def no_items_def Let_def split: if_splits)
  have "distinct (map Version (sdkAssets ?st))"
    using items_inv_process [of lib c repo allItems] by (simp add: items_inv_def)
  then have "distinct (map Version assets)"
    by (simp add: a distinct_sort_desc distinct_filter_versions)
  moreover have "set assets \<subseteq> set (sdkAssets ?st)"
    using set_filter_versions by (simp add: a set_sort_desc)
  moreover have "assets \<noteq> []"
    using ne set_sort_desc [of "filter_versions vf (sdkAssets ?st)"] a by fastforce
  ultimately show ?thesis by blast
qed

lemma GetAvailableVersions_success:
  assumes "returned (GetAvailableVersions lib esc c net repo registry vf) = Some (Inr assets)"
  shows "\<exists>allItems.
           returned (fetch_pages esc registry repo
             (ReplaceAll (APIURL registry) ''{repository}'' (Repository repo)) net [] [] [])
             = Some (Inr allItems) \<and>
           resolve_items lib c repo vf allItems = Inr assets"
  using assms
  by (auto simp: GetAvailableVersions_def Let_def split: option.splits sum.splits)

subsection \<open>The prefix filter\<close>

lemma HasSuffix_slash: "HasSuffix s ''/'' = (s \<noteq> [] \<and> last s = CHR ''/'')"
  by (cases s rule: rev_cases) (simp_all add: HasSuffix_def)

lemma pathPrefix_normalize: "pathPrefix p = normalize_ref p"
  by (cases p)
     (auto simp: pathPrefix_def normalize_ref_def TrimPrefix_def HasPrefix_single
        HasSuffix_slash Let_def)

lemma pathPrefix_shape:
  "HasPrefix (pathPrefix p) ''/'' \<and> HasSuffix (pathPrefix p) ''/''"
  by (auto simp: pathPrefix_def HasPrefix_def HasSuffix_def Let_def)

lemma process_item_dropped:
  "SDKRepository.Path repo \<noteq> [] \<Longrightarrow>
   \<not> HasPrefix (NexusAsset.Path item) (pathPrefix (SDKRepository.Path repo)) \<Longrightarrow>
   process_item lib c repo item st =
     st\<lparr>ignoredFiles := ignoredFiles st @ [NexusAsset.Path item]\<rparr>"
  by (simp add: process_item_def)

lemma sibling_not_prefixed:
  "ch \<noteq> CHR ''/'' \<Longrightarrow> \<not> HasPrefix (q @ ch # rest) (q @ ''/'')"
  by (auto simp: HasPrefix_def)

lemma process_item_cong:
  assumes "sdkAssets st = sdkAssets st'" "seenVersions st = seenVersions st'"
  shows "sdkAssets (process_item lib c repo item st) =
           sdkAssets (process_item lib c repo item st') \<and>
         seenVersions (process_item lib c repo item st) =
           seenVersions (process_item lib c repo item st')"
  using assms by (auto simp: process_item_version split: option.splits)

lemma process_items_filter:
  assumes "SDKRepository.Path repo \<noteq> []"
    and "sdkAssets st = sdkAssets st'" "seenVersions st = seenVersions st'"
  shows "sdkAssets (process_items lib c repo items st) =
         sdkAssets (process_items lib c repo
           (filter (\<lambda>item. HasPrefix (NexusAsset.Path item)
                      (pathPrefix (SDKRepository.Path repo))) items) st') \<and>
         seenVersions (process_items lib c repo items st) =
         seenVersions (process_items lib c repo
           (filter (\<lambda>item. HasPrefix (NexusAsset.Path item)
                      (pathPrefix (SDKRepository.Path repo))) items) st')"
  using assms(2,3)
proof (induction items arbitrary: st st')
  case Nil
  then show ?case by simp
next
  case (Cons item items)
  show ?case
  proof (cases "HasPrefix (NexusAsset.Path item) (pathPrefix (SDKRepository.Path repo))")
    case True
    have "sdkAssets (process_item lib c repo item st) =
            sdkAssets (process_item lib c repo item st')"
      "seenVersions (process_item lib c repo item st) =
         seenVersions (process_item lib c repo item st')"
      using process_item_cong [OF Cons.prems] by blast+
    from Cons.IH [OF this] True show ?thesis by simp
  next
    case False
    have "sdkAssets (process_item lib c repo item st) = sdkAssets st'"
      "seenVersions (process_item lib c repo item st) = seenVersions st'"
      using False assms(1) Cons.prems by (simp_all add: process_item_dropped)
    from Cons.IH [OF this] False show ?thesis by simp
  qed
qed

lemma resolve_items_filter:
  assumes "SDKRepository.Path repo \<noteq> []"
  shows "resolve_items lib c repo vf allItems =
         resolve_items lib c repo vf
           (filter (\<lambda>item. HasPrefix (NexusAsset.Path item)
                      (pathPrefix (SDKRepository.Path repo))) allItems)"
  using process_items_filter [OF assms refl refl, of lib c allItems]
  by (simp add: resolve_items_def Let_def)

lemma item_version_dropped:
  "SDKRepository.Path repo \<noteq> [] \<Longrightarrow>
   \<not> HasPrefix (NexusAsset.Path item) (pathPrefix (SDKRepository.Path repo)) \<Longrightarrow>
   item_version lib c repo item = None"
  by (simp add: item_version_def)

subsection \<open>The pagination loop\<close>

lemma fetch_pages_pages:
  assumes "ps \<noteq> []" "\<forall>p \<in> set (butlast ps). snd p \<noteq> []" "snd (last ps) = []"
  shows "fetch_pages esc registry repo apiURL (map page ps @ rest) tok acc log =
         \<lparr>returned = Some (Inr (acc @ concat (map fst ps))),
          sent = log @ map (build_request esc registry apiURL) (tok # map snd (butlast ps)),
          unread = rest\<rparr>"
  using assms
proof (induction ps arbitrary: tok acc log)
  case Nil
  then show ?case by simp
next
  case (Cons p ps)
  obtain items token where p: "p = (items, token)" by (cases p)
  show ?case
  proof (cases "ps = []")
    case True
    with Cons.prems p show ?thesis by (simp add: page_def)
  next
    case False
    with Cons.prems p have tok: "token \<noteq> []" and
      rest: "\<forall>p \<in> set (butlast ps). snd p \<noteq> []" "snd (last ps) = []" by auto
    from Cons.IH [OF False rest] tok p False show ?thesis
      by (simp add: page_def)
  qed
qed

subsection \<open>A run on the example listing\<close>

lemma demo_run:
  "GetAvailableVersions rx_lib (\<lambda>t. t) demo_client (map page demo_pages @ [])
     demo_repo demo_registry [] =
   \<lparr>returned = Some (Inr demo_assets),
    sent = [\<lparr>url = ''http://n/assets?repository=raw'', basic_auth = None\<rparr>,
            \<lparr>url = ''http://n/assets?repository=raw&continuationToken=tok1'',
             basic_auth = None\<rparr>],
    unread = []\<rparr>"
  by code_simp

lemma demo_pages_shape:
  "demo_pages \<noteq> [] \<and> (\<forall>p \<in> set (butlast demo_pages). snd p \<noteq> []) \<and>
   snd (last demo_pages) = []"
  by (simp add: demo_pages_def)


subsection \<open>The claims about the resolver\<close>

text \<open>
  Claim C2. For every non-empty configured distribution path, the prefix used by
  \<open>GetAvailableVersions\<close> is the configured path normalised to begin with \<open>/\<close> and to
  end with \<open>/\<close>, and an item is retained only if its path has that literal prefix: an
  item without it contributes no version, the loop only records its path among the
  ignored files, and the result is the result for the listing without such items.
  Consequently, when the prefix is \<open>q/\<close>, an item whose path continues \<open>q\<close> with a byte
  other than \<open>/\<close>, such as \<open>/a/b-other/x\<close> for the prefix \<open>/a/b/\<close>, is never retained.
\<close>

theorem prefix_boundary:
  assumes "SDKRepository.Path repo \<noteq> []"
  shows "pathPrefix (SDKRepository.Path repo) = normalize_ref (SDKRepository.Path repo) \<and>
         HasPrefix (pathPrefix (SDKRepository.Path repo)) ''/'' \<and>
         HasSuffix (pathPrefix (SDKRepository.Path repo)) ''/'' \<and>
         (\<not> HasPrefix (NexusAsset.Path item) (pathPrefix (SDKRepository.Path repo)) \<longrightarrow>
            item_version lib c repo item = None \<and>
            process_item lib c repo item st =
              st\<lparr>ignoredFiles := ignoredFiles st @ [NexusAsset.Path item]\<rparr>) \<and>
         resolve_items lib c repo vf allItems =
           resolve_items lib c repo vf
             (filter (\<lambda>item. HasPrefix (NexusAsset.Path item)
                        (pathPrefix (SDKRepository.Path repo))) allItems) \<and>
         (pathPrefix (SDKRepository.Path repo) = q @ ''/'' \<longrightarrow> ch \<noteq> CHR ''/'' \<longrightarrow>
          NexusAsset.Path item = q @ ch # rest \<longrightarrow>
            item_version lib c repo item = None \<and>
            process_item lib c repo item st =
              st\<lparr>ignoredFiles := ignoredFiles st @ [NexusAsset.Path item]\<rparr>)"
proof -
  have d: "item_version lib c repo item = None \<and>
           process_item lib c repo item st =
             st\<lparr>ignoredFiles := ignoredFiles st @ [NexusAsset.Path item]\<rparr>"
    if "\<not> HasPrefix (NexusAsset.Path item) (pathPrefix (SDKRepository.Path repo))"
    by (simp add: item_version_dropped [OF assms that] process_item_dropped [OF assms that])
  have s: "\<not> HasPrefix (NexusAsset.Path item) (pathPrefix (SDKRepository.Path repo))"
    if "pathPrefix (SDKRepository.Path repo) = q @ ''/''" "ch \<noteq> CHR ''/''"
      "NexusAsset.Path item = q @ ch # rest"
    using sibling_not_prefixed [OF that(2), of q rest] that(1,3) by simp
  from d s pathPrefix_normalize [of "SDKRepository.Path repo"]
    pathPrefix_shape [of "SDKRepository.Path repo"]
    resolve_items_filter [OF assms, of lib c vf allItems]
  show ?thesis by blast
qed

theorem prefix_boundary_witness:
  "SDKRepository.Path demo_repo \<noteq> [] \<and>
   pathPrefix (SDKRepository.Path demo_repo) = ''/jdk/t'' @ ''/'' \<and>
   CHR ''-'' \<noteq> CHR ''/'' \<and>
   NexusAsset.Path (demo_item ''/jdk/t-nightly/jdk-17.0.1_2-linux.tar.gz'' ''u2'') =
     ''/jdk/t'' @ CHR ''-'' # ''nightly/jdk-17.0.1_2-linux.tar.gz'' \<and>
   \<not> HasPrefix (NexusAsset.Path (demo_item ''/jdk/t-nightly/jdk-17.0.1_2-linux.tar.gz'' ''u2''))
       (pathPrefix (SDKRepository.Path demo_repo)) \<and>
   process_item rx_lib demo_client demo_repo
     (demo_item ''/jdk/t-nightly/jdk-17.0.1_2-linux.tar.gz'' ''u2'') no_items =
     no_items\<lparr>ignoredFiles := ignoredFiles no_items @
       [NexusAsset.Path (demo_item ''/jdk/t-nightly/jdk-17.0.1_2-linux.tar.gz'' ''u2'')]\<rparr>"
proof -
  let ?item = "demo_item ''/jdk/t-nightly/jdk-17.0.1_2-linux.tar.gz'' ''u2''"
  have h1: "SDKRepository.Path demo_repo \<noteq> []" by (simp add: demo_repo_def)
  have h2: "pathPrefix (SDKRepository.Path demo_repo) = ''/jdk/t'' @ ''/''" by code_simp
  have h3: "CHR ''-'' \<noteq> CHR ''/''" by simp
  have h4: "NexusAsset.Path ?item =
     ''/jdk/t'' @ CHR ''-'' # ''nightly/jdk-17.0.1_2-linux.tar.gz''"
    by (simp add: demo_item_def)
  have h5: "\<not> HasPrefix (NexusAsset.Path ?item) (pathPrefix (SDKRepository.Path demo_repo))"
    by code_simp
  note t = prefix_boundary [OF h1, where item = ?item and lib = rx_lib and c = demo_client
      and st = no_items and q = "''/jdk/t''" and ch = "CHR ''-''"
      and rest = "''nightly/jdk-17.0.1_2-linux.tar.gz''"]
  from t h2 h3 h4 have
    "process_item rx_lib demo_client demo_repo ?item no_items =
       no_items\<lparr>ignoredFiles := ignoredFiles no_items @ [NexusAsset.Path ?item]\<rparr>"
    by blast
  with h1 h2 h3 h4 h5 show ?thesis by blast
qed

text \<open>
  Claim C3. For every listing and every successful result of \<open>GetAvailableVersions\<close>,
  no two returned assets have the same version string, and each returned asset carries
  the download URL of the first item of the accumulated listing that is retained and
  whose extraction produced the asset's version; later items with that version leave
  no trace in the result.
\<close>

theorem deduplication_first_wins:
  assumes "returned (GetAvailableVersions lib esc c net repo registry vf) = Some (Inr assets)"
  shows "\<exists>allItems.
           returned (fetch_pages esc registry repo
             (ReplaceAll (APIURL registry) ''{repository}'' (Repository repo)) net [] [] [])
             = Some (Inr allItems) \<and>
           distinct (map Version assets) \<and>
           (\<forall>a \<in> set assets. \<exists>item.
              List.find (\<lambda>item. item_version lib c repo item = Some (Version a)) allItems =
                Some item \<and>
              SDKAsset.DownloadUrl a = NexusAsset.DownloadUrl item)"
proof -
  from GetAvailableVersions_success [OF assms] obtain allItems where
    f: "returned (fetch_pages esc registry repo
             (ReplaceAll (APIURL registry) ''{repository}'' (Repository repo)) net [] [] [])
             = Some (Inr allItems)"
    and r: "resolve_items lib c repo vf allItems = Inr assets" by blast
  from resolve_items_assets [OF r] items_inv_process [of lib c repo allItems]
  have "distinct (map Version assets) \<and>
           (\<forall>a \<in> set assets. \<exists>item.
              List.find (\<lambda>item. item_version lib c repo item = Some (Version a)) allItems =
                Some item \<and>
              SDKAsset.DownloadUrl a = NexusAsset.DownloadUrl item)"
    unfolding items_inv_def first_item_def by blast
  with f show ?thesis by blast
qed

theorem deduplication_first_wins_witness:
  "returned (GetAvailableVersions rx_lib (\<lambda>t. t) demo_client (map page demo_pages @ [])
     demo_repo demo_registry []) = Some (Inr demo_assets) \<and>
   (\<exists>allItems.
      returned (fetch_pages (\<lambda>t. t) demo_registry demo_repo
        (ReplaceAll (APIURL demo_registry) ''{repository}'' (Repository demo_repo))
        (map page demo_pages @ []) [] [] []) = Some (Inr allItems) \<and>
      distinct (map Version demo_assets) \<and>
      (\<forall>a \<in> set demo_assets. \<exists>item.
         List.find (\<lambda>item. item_version rx_lib demo_client demo_repo item = Some (Version a))
           allItems = Some item \<and>
         SDKAsset.DownloadUrl a = NexusAsset.DownloadUrl item))"
proof -
  have h: "returned (GetAvailableVersions rx_lib (\<lambda>t. t) demo_client (map page demo_pages @ [])
     demo_repo demo_registry []) = Some (Inr demo_assets)"
    by (simp only: demo_run run.simps)
  from h deduplication_first_wins [OF h] show ?thesis by blast
qed

text \<open>
  Claim C7. For every sequence of listing pages in which only the last page lacks a
  continuation token, \<open>GetAvailableVersions\<close> sends one request per page, the first
  without a token and each later one with the token of the page before it, reads
  nothing after the token-less page, and works on the concatenation of the items of
  all the pages, the last included.
\<close>

theorem pagination_collects_all_pages:
  assumes "ps \<noteq> []" "\<forall>p \<in> set (butlast ps). snd p \<noteq> []" "snd (last ps) = []"
  shows "fetch_pages esc registry repo apiURL (map page ps @ rest) [] [] [] =
           \<lparr>returned = Some (Inr (concat (map fst ps))),
            sent = map (build_request esc registry apiURL) ([] # map snd (butlast ps)),
            unread = rest\<rparr> \<and>
         url (build_request esc registry apiURL []) = apiURL \<and>
         GetAvailableVersions lib esc c (map page ps @ rest) repo registry vf =
           \<lparr>returned = Some (resolve_items lib c repo vf (concat (map fst ps))),
            sent = map (build_request esc registry
                     (ReplaceAll (APIURL registry) ''{repository}'' (Repository repo)))
                     ([] # map snd (butlast ps)),
            unread = rest\<rparr>"
proof -
  have f: "fetch_pages esc registry repo u (map page ps @ rest) [] [] [] =
           \<lparr>returned = Some (Inr (concat (map fst ps))),
            sent = map (build_request esc registry u) ([] # map snd (butlast ps)),
            unread = rest\<rparr>" for u
    using fetch_pages_pages [OF assms, of esc registry repo u rest "[]" "[]" "[]"] by simp
  have u: "url (build_request esc registry apiURL []) = apiURL"
    by (simp add: build_request_def)
  have g: "GetAvailableVersions lib esc c (map page ps @ rest) repo registry vf =
           \<lparr>returned = Some (resolve_items lib c repo vf (concat (map fst ps))),
            sent = map (build_request esc registry
                     (ReplaceAll (APIURL registry) ''{repository}'' (Repository repo)))
                     ([] # map snd (butlast ps)),
            unread = rest\<rparr>"
    unfolding GetAvailableVersions_def Let_def f by simp
  from f u g show ?thesis by blast
qed

theorem pagination_collects_all_pages_witness:
  "map snd demo_pages = [''tok1'', []] \<and>
   GetAvailableVersions rx_lib (\<lambda>t. t) demo_client
     (map page demo_pages @ [TransportError ''unread'']) demo_repo demo_registry [] =
     \<lparr>returned = Some (resolve_items rx_lib demo_client demo_repo []
                        (concat (map fst demo_pages))),
      sent = map (build_request (\<lambda>t. t) demo_registry
               (ReplaceAll (APIURL demo_registry) ''{repository}'' (Repository demo_repo)))
               ([] # map snd (butlast demo_pages)),
      unread = [TransportError ''unread'']\<rparr> \<and>
   map snd (butlast demo_pages) = [''tok1'']"
proof -
  from demo_pages_shape have h1: "demo_pages \<noteq> []"
    and h2: "\<forall>p \<in> set (butlast demo_pages). snd p \<noteq> []"
    and h3: "snd (last demo_pages) = []" by blast+
  have t: "map snd demo_pages = [''tok1'', []]" "map snd (butlast demo_pages) = [''tok1'']"
    by (simp_all add: demo_pages_def)
  from t
    pagination_collects_all_pages [OF h1 h2 h3, where lib = rx_lib and esc = "\<lambda>t. t"
      and c = demo_client and rest = "[TransportError ''unread'']" and repo = demo_repo
      and registry = demo_registry and vf = "[]"]
  show ?thesis by blast
qed

text \<open>
  Claim C8. Whenever the pagination succeeds and the filtering steps leave no asset,
  \<open>GetAvailableVersions\<close> returns an error and not an empty list: the message is
  "no version <filter> found for <path>" when a version filter was supplied and
  "no versions found for <path>" otherwise, with the configured path. No run returns
  the empty list.
\<close>

theorem empty_result_is_error:
  "(returned (fetch_pages esc registry repo
       (ReplaceAll (APIURL registry) ''{repository}'' (Repository repo)) net [] [] [])
       = Some (Inr allItems) \<longrightarrow>
    filter_versions vf (sdkAssets (process_items lib c repo allItems no_items)) = [] \<longrightarrow>
    returned (GetAvailableVersions lib esc c net repo registry vf) =
      Some (Inl (if vf \<noteq> []
                 then ''no version '' @ vf @ '' found for '' @ SDKRepository.Path repo
                 else ''no versions found for '' @ SDKRepository.Path repo))) \<and>
   returned (GetAvailableVersions lib esc c net repo registry vf) \<noteq> Some (Inr [])"
proof -
  have "returned (GetAvailableVersions lib esc c net repo registry vf) \<noteq> Some (Inr [])"
    using GetAvailableVersions_success [of lib esc c net repo registry vf "[]"]
      resolve_items_assets [of lib c repo vf _ "[]"] by blast
  then show ?thesis
    by (auto simp: GetAvailableVersions_def resolve_items_def no_items_def Let_def)
qed

theorem empty_result_is_error_witness:
  "returned (fetch_pages (\<lambda>t. t) demo_registry demo_repo
     (ReplaceAll (APIURL demo_registry) ''{repository}'' (Repository demo_repo))
     (map page demo_pages) [] [] []) = Some (Inr (concat (map fst demo_pages))) \<and>
   filter_versions ''17''
     (sdkAssets (process_items rx_lib demo_client demo_repo (concat (map fst demo_pages))
        no_items)) = [] \<and>
   returned (GetAvailableVersions rx_lib (\<lambda>t. t) demo_client (map page demo_pages)
     demo_repo demo_registry ''17'') = Some (Inl ''no version 17 found for jdk/t'')"
proof -
  have h1: "returned (fetch_pages (\<lambda>t. t) demo_registry demo_repo
     (ReplaceAll (APIURL demo_registry) ''{repository}'' (Repository demo_repo))
     (map page demo_pages) [] [] []) = Some (Inr (concat (map fst demo_pages)))"
    using fetch_pages_pages [OF demo_pages_shape [THEN conjunct1]
        demo_pages_shape [THEN conjunct2, THEN conjunct1]
        demo_pages_shape [THEN conjunct2, THEN conjunct2], where rest = "[]"]
    by simp
  have h2: "filter_versions ''17''
     (sdkAssets (process_items rx_lib demo_client demo_repo (concat (map fst demo_pages))
        no_items)) = []"
    by code_simp
  have m: "(if ''17'' \<noteq> [] then ''no version '' @ ''17'' @ '' found for '' @
              SDKRepository.Path demo_repo
            else ''no versions found for '' @ SDKRepository.Path demo_repo) =
           ''no version 17 found for jdk/t''"
    by (simp add: demo_repo_def)
  from h1 h2
    empty_result_is_error [where esc = "\<lambda>t. t" and registry = demo_registry
      and repo = demo_repo and net = "map page demo_pages"
      and allItems = "concat (map fst demo_pages)" and vf = "''17''" and lib = rx_lib
      and c = demo_client]
  have "returned (GetAvailableVersions rx_lib (\<lambda>t. t) demo_client (map page demo_pages)
     demo_repo demo_registry ''17'') =
     Some (Inl (if ''17'' \<noteq> [] then ''no version '' @ ''17'' @ '' found for '' @
              SDKRepository.Path demo_repo
            else ''no versions found for '' @ SDKRepository.Path demo_repo))"
    by blast
  with h1 h2 show ?thesis by (simp only: m simp_thms)
qed

text \<open>
  Claim C10. For every asset of a successful result of \<open>GetAvailableVersions\<close>, the
  field \<open>Filename\<close> equals the field \<open>Version\<close>, and the field \<open>Size\<close> is zero.
\<close>

theorem asset_filename_is_version:
  assumes "returned (GetAvailableVersions lib esc c net repo registry vf) = Some (Inr assets)"
  shows "\<forall>a \<in> set assets. Filename a = Version a \<and> Size a = 0"
proof -
  from GetAvailableVersions_success [OF assms] obtain allItems where
    r: "resolve_items lib c repo vf allItems = Inr assets" by blast
  from resolve_items_assets [OF r] items_inv_process [of lib c repo allItems]
  show ?thesis unfolding items_inv_def by blast
qed

theorem asset_filename_is_version_witness:
  "returned (GetAvailableVersions rx_lib (\<lambda>t. t) demo_client (map page demo_pages @ [])
     demo_repo demo_registry []) = Some (Inr demo_assets) \<and>
   map Filename demo_assets = map Version demo_assets \<and>
   map Size demo_assets = [0, 0]"
proof -
  have h: "returned (GetAvailableVersions rx_lib (\<lambda>t. t) demo_client (map page demo_pages @ [])
     demo_repo demo_registry []) = Some (Inr demo_assets)"
    by (simp only: demo_run run.simps)
  have l: "length demo_assets = 2" by (simp add: demo_assets_def)
  from asset_filename_is_version [OF h]
  have "map Filename demo_assets = map Version demo_assets"
    and "map Size demo_assets = map (\<lambda>a. 0) demo_assets"
    by simp_all
  moreover have "map (\<lambda>a. 0 :: 64 word) demo_assets = [0, 0]"
    by (simp add: demo_assets_def)
  ultimately show ?thesis using h by simp
qed

end
